theory Spec2Isabelle
  imports Main "HOL-Library.Word"
begin

section \<open>The C library as the viewer calls it\<close>

text \<open>
  The viewer reads its input with \<^verbatim>\<open>fscanf\<close>.  A stream is modelled by the bytes that are
  still unread; every conversion returns the bytes left behind it.  Numbers are of type
  \<open>int\<close>, with the range of the C type written out where it matters.  The conversions follow
  the GNU C library on an LP64 machine (the platform of SDL2 on Linux): a numeric
  directive collects a sign and digits, converts them with \<^verbatim>\<open>strtol\<close> or \<^verbatim>\<open>strtoul\<close>
  (which saturate), and stores the result through a cast to the argument's type.  ISO C
  leaves the stored value undefined where the number does not fit the argument; the
  library defines it as written here.
\<close>

type_synonym stream = string

type_synonym byte = "8 word"

definition isspace :: "char \<Rightarrow> bool" where
  "isspace c \<longleftrightarrow>
     c = CHR '' '' \<or> c = CHR 0x09 \<or> c = CHR 0x0A \<or> c = CHR 0x0B \<or> c = CHR 0x0C \<or> c = CHR 0x0D"

definition isdigit :: "char \<Rightarrow> bool" where
  "isdigit c \<longleftrightarrow> 48 \<le> (of_char c :: nat) \<and> (of_char c :: nat) \<le> 57"

definition isodigit :: "char \<Rightarrow> bool" where
  "isodigit c \<longleftrightarrow> 48 \<le> (of_char c :: nat) \<and> (of_char c :: nat) \<le> 55"

definition isxdigit :: "char \<Rightarrow> bool" where
  "isxdigit c \<longleftrightarrow>
     isdigit c \<or> (65 \<le> (of_char c :: nat) \<and> (of_char c :: nat) \<le> 70)
               \<or> (97 \<le> (of_char c :: nat) \<and> (of_char c :: nat) \<le> 102)"

definition digit_value :: "char \<Rightarrow> int" where
  "digit_value c =
     (let n = of_char c in if n \<le> 57 then n - 48 else if n \<le> 70 then n - 55 else n - 87)"

definition number_value :: "int \<Rightarrow> string \<Rightarrow> int" where
  "number_value base ds = foldl (\<lambda>a c. a * base + digit_value c) 0 ds"

text \<open>
  \<^verbatim>\<open>strtol\<close> and \<^verbatim>\<open>strtoul\<close> on a sign and a magnitude, with \<^verbatim>\<open>long\<close> of 64 bits: out of
  range, the first returns \<^verbatim>\<open>LONG_MIN\<close> or \<^verbatim>\<open>LONG_MAX\<close> and the second \<^verbatim>\<open>ULONG_MAX\<close>; in range,
  \<^verbatim>\<open>strtoul\<close> negates modulo \<open>2 ^ 64\<close>.
\<close>

definition strtol :: "bool \<Rightarrow> int \<Rightarrow> int" where
  "strtol negative n =
     (if negative then (if n > 2 ^ 63 then - (2 ^ 63) else - n)
      else (if n > 2 ^ 63 - 1 then 2 ^ 63 - 1 else n))"

definition strtoul :: "bool \<Rightarrow> int \<Rightarrow> int" where
  "strtoul negative n =
     (if n > 2 ^ 64 - 1 then 2 ^ 64 - 1
      else if negative then (2 ^ 64 - n) mod 2 ^ 64 else n)"

text \<open>The casts \<^verbatim>\<open>(int) num.l\<close> and \<^verbatim>\<open>(unsigned char) num.ul\<close> that store a converted number.\<close>

definition int_of_long :: "int \<Rightarrow> int" where
  "int_of_long v = (v + 2 ^ 31) mod 2 ^ 32 - 2 ^ 31"

definition uchar_of_ulong :: "int \<Rightarrow> byte" where
  "uchar_of_ulong n = of_int n"

definition INT_MIN :: int where "INT_MIN = - (2 ^ 31)"
definition INT_MAX :: int where "INT_MAX = 2 ^ 31 - 1"
definition PTRDIFF_MAX :: int where "PTRDIFF_MAX = 2 ^ 63 - 1"
definition EOF :: int where "EOF = - 1"

text \<open>
  The outcome of one conversion directive: the converted value and the rest of the stream;
  a matching failure (the offending byte is pushed back, what was consumed before it stays
  consumed); or an input failure (the stream ended before the directive saw a byte).
\<close>

datatype 'a conv = Converted 'a stream | Matching_Failure stream | Input_Failure

text \<open>\<^verbatim>\<open>%Ns\<close>: skip white space, then at most \<open>N\<close> bytes up to the next white space.\<close>

definition conv_s :: "nat \<Rightarrow> stream \<Rightarrow> string conv" where
  "conv_s field_width f =
     (case dropWhile isspace f of
        [] \<Rightarrow> Input_Failure
      | c # f1 \<Rightarrow>
          (let tok = takeWhile (\<lambda>c. \<not> isspace c) (take field_width (c # f1))
           in Converted tok (drop (length tok) (c # f1))))"

definition scan_sign :: "stream \<Rightarrow> bool \<times> stream" where
  "scan_sign f =
     (case f of
        [] \<Rightarrow> (False, [])
      | c # f1 \<Rightarrow>
          if c = CHR ''-'' then (True, f1) else if c = CHR ''+'' then (False, f1) else (False, f))"

text \<open>
  The digits of \<^verbatim>\<open>%i\<close> (base 0): after the sign, \<^verbatim>\<open>0x\<close> or \<^verbatim>\<open>0X\<close> selects base 16 and is
  consumed, another leading \<^verbatim>\<open>0\<close> selects base 8, anything else base 10.  The result is the
  sign and the magnitude of the digits collected.
\<close>

definition number_i :: "stream \<Rightarrow> (bool \<times> int) conv" where
  "number_i f =
     (case scan_sign f of (negative, f1) \<Rightarrow>
        (case f1 of
           [] \<Rightarrow> Matching_Failure []
         | c # f2 \<Rightarrow>
             if c = CHR ''0'' then
               (case f2 of
                  [] \<Rightarrow> Converted (negative, 0) []
                | x # f3 \<Rightarrow>
                    if x = CHR ''x'' \<or> x = CHR ''X''
                    then Converted (negative, number_value 16 (takeWhile isxdigit f3))
                           (dropWhile isxdigit f3)
                    else Converted (negative, number_value 8 (takeWhile isodigit f2))
                           (dropWhile isodigit f2))
             else if isdigit c
             then Converted (negative, number_value 10 (takeWhile isdigit f1))
                    (dropWhile isdigit f1)
             else Matching_Failure f1))"

text \<open>The digits of \<^verbatim>\<open>%u\<close> (base 10): a sign and a non-empty run of decimal digits.\<close>

definition number_u :: "stream \<Rightarrow> (bool \<times> int) conv" where
  "number_u f =
     (case scan_sign f of (negative, f1) \<Rightarrow>
        if takeWhile isdigit f1 = [] then Matching_Failure f1
        else Converted (negative, number_value 10 (takeWhile isdigit f1))
               (dropWhile isdigit f1))"

text \<open>\<^verbatim>\<open>%i\<close> into an \<^verbatim>\<open>int\<close>, and \<^verbatim>\<open>%hhu\<close> into an \<^verbatim>\<open>unsigned char\<close>.\<close>

definition conv_i :: "stream \<Rightarrow> int conv" where
  "conv_i f =
     (case dropWhile isspace f of
        [] \<Rightarrow> Input_Failure
      | c # f1 \<Rightarrow>
          (case number_i (c # f1) of
             Converted (negative, n) r \<Rightarrow> Converted (int_of_long (strtol negative n)) r
           | Matching_Failure r \<Rightarrow> Matching_Failure r
           | Input_Failure \<Rightarrow> Input_Failure))"

definition conv_hhu :: "stream \<Rightarrow> byte conv" where
  "conv_hhu f =
     (case dropWhile isspace f of
        [] \<Rightarrow> Input_Failure
      | c # f1 \<Rightarrow>
          (case number_u (c # f1) of
             Converted (negative, n) r \<Rightarrow> Converted (uchar_of_ulong (strtoul negative n)) r
           | Matching_Failure r \<Rightarrow> Matching_Failure r
           | Input_Failure \<Rightarrow> Input_Failure))"

text \<open>
  The four calls of \<^verbatim>\<open>fscanf\<close> in the decoder, by format.  Each returns what \<^verbatim>\<open>fscanf\<close>
  returns (the number of arguments assigned, or \<^verbatim>\<open>EOF\<close> when the stream ends before the
  first conversion), the arguments (an argument that was not assigned keeps the value it
  is given here), and the stream afterwards.  A white-space directive in a format skips
  any white space and never fails.
\<close>

definition fscanf_2s :: "stream \<Rightarrow> int \<times> string \<times> stream" where
  \<comment> \<open>\<^verbatim>\<open>fscanf(f, "%2s", magic_number)\<close>\<close>
  "fscanf_2s f =
     (case conv_s 2 f of
        Converted tok r \<Rightarrow> (1, tok, r)
      | Matching_Failure r \<Rightarrow> (0, [], r)
      | Input_Failure \<Rightarrow> (EOF, [], []))"

definition fscanf_i :: "stream \<Rightarrow> int \<Rightarrow> int \<times> int \<times> stream" where
  \<comment> \<open>\<^verbatim>\<open>fscanf(f, "%i", &a)\<close>\<close>
  "fscanf_i f a0 =
     (case conv_i f of
        Converted a r \<Rightarrow> (1, a, r)
      | Matching_Failure r \<Rightarrow> (0, a0, r)
      | Input_Failure \<Rightarrow> (EOF, a0, []))"

definition fscanf_i_i :: "stream \<Rightarrow> int \<Rightarrow> int \<Rightarrow> int \<times> int \<times> int \<times> stream" where
  \<comment> \<open>\<^verbatim>\<open>fscanf(f, "%i %i", &a, &b)\<close>\<close>
  "fscanf_i_i f a0 b0 =
     (case conv_i f of
        Converted a r1 \<Rightarrow>
          (case conv_i (dropWhile isspace r1) of
             Converted b r2 \<Rightarrow> (2, a, b, r2)
           | Matching_Failure r \<Rightarrow> (1, a, b0, r)
           | Input_Failure \<Rightarrow> (1, a, b0, []))
      | Matching_Failure r \<Rightarrow> (0, a0, b0, r)
      | Input_Failure \<Rightarrow> (EOF, a0, b0, []))"

definition fscanf_hhu_hhu_hhu ::
  "stream \<Rightarrow> byte \<Rightarrow> byte \<Rightarrow> byte \<Rightarrow> int \<times> byte \<times> byte \<times> byte \<times> stream" where
  \<comment> \<open>\<^verbatim>\<open>fscanf(f, "%hhu %hhu %hhu", &r, &g, &b)\<close>\<close>
  "fscanf_hhu_hhu_hhu f r0 g0 b0 =
     (case conv_hhu f of
        Converted r f1 \<Rightarrow>
          (case conv_hhu (dropWhile isspace f1) of
             Converted g f2 \<Rightarrow>
               (case conv_hhu (dropWhile isspace f2) of
                  Converted b f3 \<Rightarrow> (3, r, g, b, f3)
                | Matching_Failure f' \<Rightarrow> (2, r, g, b0, f')
                | Input_Failure \<Rightarrow> (2, r, g, b0, []))
           | Matching_Failure f' \<Rightarrow> (1, r, g0, b0, f')
           | Input_Failure \<Rightarrow> (1, r, g0, b0, []))
      | Matching_Failure f' \<Rightarrow> (0, r0, g0, b0, f')
      | Input_Failure \<Rightarrow> (EOF, r0, g0, b0, []))"


text \<open>\<^verbatim>\<open>printf("%i", v)\<close>: the decimal digits of \<open>v\<close>, after a minus sign when \<open>v\<close> is negative.\<close>

function show_dec :: "int \<Rightarrow> string" where
  "show_dec n =
     (if n < 10 then [char_of (48 + n)]
      else show_dec (n div 10) @ [char_of (48 + n mod 10)])"
  by pat_completeness auto
termination
  by (relation "measure nat") auto

definition printf_i :: "int \<Rightarrow> string" where
  "printf_i v = (if v < 0 then CHR ''-'' # show_dec (- v) else show_dec v)"

section \<open>The decoder\<close>

record PPMFile =
  path :: string
  magic_number :: string
  width :: int
  height :: int
  max_color :: int
  data :: "byte list"

text \<open>
  Every way \<^verbatim>\<open>ppm_read_file\<close> returns \<^verbatim>\<open>NULL\<close>, with the line it writes on \<^verbatim>\<open>stderr\<close>
  before it returns.
\<close>

datatype error =
    Open_Failed string
  | Not_P3
  | Bad_Dimensions
  | Bad_Max_Color
  | Data_Alloc_Failed
  | Bad_Pixel_Data
  | Struct_Alloc_Failed

fun message :: "error \<Rightarrow> string" where
  "message (Open_Failed p) = ''Failed to open file '' @ p @ ''.\<newline>''"
| "message Not_P3 = ''File is not in PPM P3 format.\<newline>''"
| "message Bad_Dimensions = ''Error reading image dimensions.\<newline>''"
| "message Bad_Max_Color = ''Error reading max color.\<newline>''"
| "message Data_Alloc_Failed = ''Failed to allocate image pixel data array.\<newline>''"
| "message Bad_Pixel_Data = ''Error reading pixel data.\<newline>''"
| "message Struct_Alloc_Failed = ''Failed to allocate PPMFile struct.\<newline>''"

text \<open>
  What the decoder asks of its environment: \<^verbatim>\<open>fopen\<close> on a path gives the contents of the
  file or fails; the \<open>k\<close>-th \<^verbatim>\<open>malloc\<close> of a call, for \<open>n\<close> bytes, is granted or refused; a
  granted block holds indeterminate bytes.  No block exceeds \<^verbatim>\<open>PTRDIFF_MAX\<close> bytes.
\<close>

record env =
  fopen :: "string \<Rightarrow> stream option"
  heap_grants :: "nat \<Rightarrow> int \<Rightarrow> bool"
  indeterminate :: "nat \<Rightarrow> byte"

definition malloc :: "env \<Rightarrow> nat \<Rightarrow> int \<Rightarrow> byte list option" where
  "malloc e k n =
     (if n \<le> PTRDIFF_MAX \<and> heap_grants e k n
      then Some (map (indeterminate e) [0..<nat n]) else None)"

definition size_t_of_int :: "int \<Rightarrow> int" where
  "size_t_of_int v = v mod 2 ^ 64"

definition sizeof_PPMFile :: int where
  "sizeof_PPMFile = 32"

definition in_int_range :: "int \<Rightarrow> bool" where
  "in_int_range v \<longleftrightarrow> INT_MIN \<le> v \<and> v \<le> INT_MAX"

text \<open>The byte of a C string at an index: past the last character stands the terminator.\<close>

definition char_at :: "string \<Rightarrow> nat \<Rightarrow> char" where
  "char_at s i = (if i < length s then s ! i else CHR 0x00)"

text \<open>
  The loop over the pixels, lines 57 to 74: \<open>i\<close> counts up to \<open>num_pixels\<close>; each round
  scans three samples and writes the four bytes of cell \<open>i\<close>.  \<open>None\<close> is the early
  \<^verbatim>\<open>return NULL\<close> of line 64.
\<close>

function read_pixels :: "int \<Rightarrow> int \<Rightarrow> stream \<Rightarrow> byte list \<Rightarrow> (byte list \<times> stream) option" where
  "read_pixels i num_pixels f buf =
     (if i < num_pixels then
        (case fscanf_hhu_hhu_hhu f 0 0 0 of
           (n, r, g, b, f') \<Rightarrow>
             if n \<noteq> 3 then None
             else read_pixels (i + 1) num_pixels f'
                    (buf[nat (i * 4) := 255, nat (i * 4 + 1) := b,
                         nat (i * 4 + 2) := g, nat (i * 4 + 3) := r]))
      else Some (buf, f))"
  by pat_completeness auto
termination
  by (relation "measure (\<lambda>(i, num_pixels, f, buf). nat (num_pixels - i))") auto

text \<open>
  \<^verbatim>\<open>ppm_read_file\<close>, on the contents of the opened file.  The result is \<open>None\<close> where the C
  program has no defined behaviour (the \<^verbatim>\<open>int\<close> products of lines 47 and 50 overflow);
  otherwise the error of the \<^verbatim>\<open>return NULL\<close> taken, or the \<^verbatim>\<open>PPMFile\<close> built together
  with the position of the stream at the final \<^verbatim>\<open>return\<close>.
\<close>

definition ppm_read_stream ::
  "env \<Rightarrow> string \<Rightarrow> stream \<Rightarrow> (error + PPMFile \<times> stream) option" where
  "ppm_read_stream e p open_file =
     (case fscanf_2s open_file of
        (n1, magic, f1) \<Rightarrow>
          if n1 \<noteq> 1 \<or> char_at magic 0 \<noteq> CHR ''P'' \<or> char_at magic 1 \<noteq> CHR ''3''
          then Some (Inl Not_P3)
          else
            (case fscanf_i_i f1 0 0 of
               (n2, w, h, f2) \<Rightarrow>
                 if n2 \<noteq> 2 then Some (Inl Bad_Dimensions)
                 else
                   (case fscanf_i f2 0 of
                      (n3, mc, f3) \<Rightarrow>
                        if n3 \<noteq> 1 then Some (Inl Bad_Max_Color)
                        else if \<not> in_int_range (w * h) then None
                        else if \<not> in_int_range (w * h * 4) then None
                        else
                          (case malloc e 0 (size_t_of_int (w * h * 4)) of
                             None \<Rightarrow> Some (Inl Data_Alloc_Failed)
                           | Some buf \<Rightarrow>
                               (case read_pixels 0 (w * h) f3 buf of
                                  None \<Rightarrow> Some (Inl Bad_Pixel_Data)
                                | Some (buf', f4) \<Rightarrow>
                                    (case malloc e 1 sizeof_PPMFile of
                                       None \<Rightarrow> Some (Inl Struct_Alloc_Failed)
                                     | Some _ \<Rightarrow>
                                         Some (Inr (\<lparr>path = p, magic_number = magic,
                                                     width = w, height = h, max_color = mc,
                                                     data = buf'\<rparr>, f4))))))))"

definition ppm_read_file :: "env \<Rightarrow> string \<Rightarrow> (error + PPMFile) option" where
  "ppm_read_file e p =
     (case fopen e p of
        None \<Rightarrow> Some (Inl (Open_Failed p))
      | Some open_file \<Rightarrow> map_option (map_sum id fst) (ppm_read_stream e p open_file))"


section \<open>The viewer\<close>

text \<open>
  What the viewer does to the outside is recorded as a trace of actions, in program order:
  the lines written on \<^verbatim>\<open>stderr\<close> and \<^verbatim>\<open>stdout\<close>, the calls of \<^verbatim>\<open>free\<close>, of SDL and of
  \<^verbatim>\<open>exit\<close>, and the store into the variable that holds the active image (line 174).
\<close>

datatype action =
    Stderr string
  | Stdout string
  | Free_Data PPMFile
  | Free_File PPMFile
  | Store_File PPMFile
  | SDL_Init
  | SDL_CreateWindow string int int
  | SDL_EventState
  | SDL_CreateRenderer
  | SDL_CreateTexture int int
  | SDL_LockTexture
  | Memcpy "byte list"
  | SDL_UnlockTexture
  | SDL_RenderCopy int int int int
  | SDL_DestroyTexture
  | SDL_SetRenderDrawColor byte byte byte byte
  | SDL_RenderClear
  | SDL_RenderPresent
  | SDL_SetWindowTitle string
  | SDL_SetWindowSize int int
  | SDL_free string
  | Exit int

definition EXIT_SUCCESS :: int where "EXIT_SUCCESS = 0"
definition EXIT_FAILURE :: int where "EXIT_FAILURE = 1"

definition ppm_destroy :: "PPMFile \<Rightarrow> action list" where
  "ppm_destroy file = [Free_Data file, Free_File file]"

definition ppm_print_details :: "PPMFile \<Rightarrow> action list" where
  "ppm_print_details file =
     [Stdout (path file @ ''\<newline>''),
      Stdout (''Magic number: '' @ magic_number file @ ''\<newline>''),
      Stdout (''Size (WxH): '' @ printf_i (width file) @ ''x'' @ printf_i (height file)
              @ ''\<newline>''),
      Stdout (''Max color: '' @ printf_i (max_color file) @ ''\<newline>'')]"

text \<open>
  The windowing service: which of its calls succeed, and the text of \<^verbatim>\<open>SDL_GetError\<close>.
\<close>

record sdl =
  init_ok :: bool
  create_window_ok :: "string \<Rightarrow> int \<Rightarrow> int \<Rightarrow> bool"
  create_renderer_ok :: bool
  create_texture_ok :: "int \<Rightarrow> int \<Rightarrow> bool"
  lock_texture_ok :: bool
  get_error :: string

text \<open>
  \<^verbatim>\<open>sdl_render_once\<close>: the actions of one call, and whether the call returns (\<open>True\<close>) or ends
  the process through \<^verbatim>\<open>exit(EXIT_FAILURE)\<close> (\<open>False\<close>).  \<open>None\<close> where the size of the copy,
  line 136, overflows \<^verbatim>\<open>int\<close> or exceeds the buffer that \<^verbatim>\<open>memcpy\<close> reads.
\<close>

definition sdl_render_once :: "sdl \<Rightarrow> PPMFile option \<Rightarrow> (action list \<times> bool) option" where
  "sdl_render_once s file_opt =
     (case file_opt of
        Some file \<Rightarrow>
          if \<not> create_texture_ok s (width file) (height file)
          then Some ([SDL_CreateTexture (width file) (height file),
                      Stderr (''Failed to create SDL texture: '' @ get_error s @ ''.\<newline>''),
                      Exit EXIT_FAILURE], False)
          else if \<not> lock_texture_ok s
          then Some ([SDL_CreateTexture (width file) (height file), SDL_LockTexture,
                      Stderr (''Failed to lock SDL texture: '' @ get_error s @ ''.\<newline>''),
                      Exit EXIT_FAILURE], False)
          else if \<not> in_int_range (width file * height file)
                  \<or> \<not> in_int_range (width file * height file * 4)
                  \<or> int (length (data file)) < size_t_of_int (width file * height file * 4)
          then None
          else Some ([SDL_CreateTexture (width file) (height file), SDL_LockTexture,
                      Memcpy (take (nat (size_t_of_int (width file * height file * 4)))
                                (data file)),
                      SDL_UnlockTexture,
                      SDL_RenderCopy 0 0 (width file) (height file),
                      SDL_DestroyTexture,
                      SDL_RenderPresent], True)
      | None \<Rightarrow>
          Some ([SDL_SetRenderDrawColor 0 0 255 255, SDL_RenderClear, SDL_RenderPresent], True))"

text \<open>
  \<^verbatim>\<open>update_state\<close>: the value returned, the new contents of \<^verbatim>\<open>*ppm_file\<close> and the actions.
  The line that \<^verbatim>\<open>ppm_read_file\<close> writes on \<^verbatim>\<open>stderr\<close> before it returns \<^verbatim>\<open>NULL\<close> is entered
  here, where the call is made.
\<close>

definition update_state ::
  "env \<Rightarrow> string \<Rightarrow> PPMFile option \<Rightarrow> (bool \<times> PPMFile option \<times> action list) option" where
  "update_state e new_image_path old_ppm_file =
     (case ppm_read_file e new_image_path of
        None \<Rightarrow> None
      | Some (Inl err) \<Rightarrow> Some (False, old_ppm_file, [Stderr (message err)])
      | Some (Inr new_ppm_file) \<Rightarrow>
          Some (True, Some new_ppm_file,
                (case old_ppm_file of Some old \<Rightarrow> ppm_destroy old | None \<Rightarrow> [])
                @ [Store_File new_ppm_file,
                   SDL_SetWindowTitle (path new_ppm_file),
                   SDL_SetWindowSize (width new_ppm_file) (height new_ppm_file)]
                @ ppm_print_details new_ppm_file))"

subsection \<open>The process\<close>

datatype keysym = SDLK_ESCAPE | SDLK_q | Other_Key

datatype event = SDL_QUIT | SDL_KEYDOWN keysym | SDL_DROPFILE string | Other_Event

text \<open>
  The state of \<^verbatim>\<open>main\<close>: its variables \<^verbatim>\<open>ppm_file\<close> and \<^verbatim>\<open>running\<close>, and the trace so far.
  A process is alive in such a state, or has called \<^verbatim>\<open>exit\<close> with a status, leaving a trace.
\<close>

record viewer =
  ppm_file :: "PPMFile option"
  running :: bool
  trace :: "action list"

datatype process = Alive viewer | Exited int "action list"

text \<open>Lines 185 to 193: the image named on the command line, if any.\<close>

definition startup_load :: "env \<Rightarrow> string list \<Rightarrow> (PPMFile option \<times> action list) option" where
  "startup_load e argv =
     (if 1 < length argv then
        (case ppm_read_file e (argv ! 1) of
           None \<Rightarrow> None
         | Some (Inl err) \<Rightarrow> Some (None, [Stderr (message err)])
         | Some (Inr file) \<Rightarrow> Some (Some file, ppm_print_details file))
      else Some (None, []))"

text \<open>Lines 185 to 234: \<^verbatim>\<open>main\<close> up to the event loop.\<close>

definition main_startup :: "env \<Rightarrow> sdl \<Rightarrow> string list \<Rightarrow> process option" where
  "main_startup e s argv =
     (case startup_load e argv of
        None \<Rightarrow> None
      | Some (file_opt, t0) \<Rightarrow>
          if \<not> init_ok s
          then Some (Exited EXIT_FAILURE
                 (t0 @ [SDL_Init,
                        Stderr (''Failed to initialise SDL: '' @ get_error s @ ''\<newline>.''),
                        Exit EXIT_FAILURE]))
          else
            (let window_title = (case file_opt of Some file \<Rightarrow> path file | None \<Rightarrow> ''imgv'');
                 window_width = (case file_opt of Some file \<Rightarrow> width file | None \<Rightarrow> 500);
                 window_height = (case file_opt of Some file \<Rightarrow> height file | None \<Rightarrow> 500);
                 t1 = t0 @ [SDL_Init, SDL_CreateWindow window_title window_width window_height]
             in
               if \<not> create_window_ok s window_title window_width window_height
               then Some (Exited EXIT_FAILURE
                      (t1 @ [Stderr (''Failed to create SDL window: '' @ get_error s
                                     @ ''\<newline>.''),
                             Exit EXIT_FAILURE]))
               else if \<not> create_renderer_ok s
               then Some (Exited EXIT_FAILURE
                      (t1 @ [SDL_EventState, SDL_CreateRenderer,
                             Stderr (''Failed to create SDL renderer: '' @ get_error s
                                     @ ''\<newline>.''),
                             Exit EXIT_FAILURE]))
               else
                 (case sdl_render_once s file_opt of
                    None \<Rightarrow> None
                  | Some (t2, returned) \<Rightarrow>
                      if returned
                      then Some (Alive \<lparr>ppm_file = file_opt, running = True,
                                        trace = t1 @ [SDL_EventState, SDL_CreateRenderer] @ t2\<rparr>)
                      else Some (Exited EXIT_FAILURE
                             (t1 @ [SDL_EventState, SDL_CreateRenderer] @ t2)))))"

text \<open>Lines 240 to 262: the \<^verbatim>\<open>switch\<close> on one event.\<close>

definition handle_event :: "env \<Rightarrow> sdl \<Rightarrow> event \<Rightarrow> viewer \<Rightarrow> process option" where
  "handle_event e s ev v =
     (case ev of
        SDL_QUIT \<Rightarrow> Some (Alive (v\<lparr>running := False\<rparr>))
      | SDL_KEYDOWN key \<Rightarrow>
          Some (Alive (if key = SDLK_ESCAPE \<or> key = SDLK_q then v\<lparr>running := False\<rparr> else v))
      | SDL_DROPFILE file \<Rightarrow>
          (case update_state e file (ppm_file v) of
             None \<Rightarrow> None
           | Some (updated, file_opt, t1) \<Rightarrow>
               if updated then
                 (case sdl_render_once s file_opt of
                    None \<Rightarrow> None
                  | Some (t2, returned) \<Rightarrow>
                      if returned
                      then Some (Alive (v\<lparr>ppm_file := file_opt,
                                           trace := trace v @ t1 @ t2 @ [SDL_free file]\<rparr>))
                      else Some (Exited EXIT_FAILURE (trace v @ t1 @ t2)))
               else Some (Alive (v\<lparr>ppm_file := file_opt,
                                    trace := trace v @ t1 @ [SDL_free file]\<rparr>)))
      | Other_Event \<Rightarrow> Some (Alive v))"

section \<open>Notions the properties are stated with\<close>

text \<open>
  The release actions of a trace, and the trace a process has left, whether it is alive or
  has called \<^verbatim>\<open>exit\<close>.
\<close>

fun is_release :: "action \<Rightarrow> bool" where
  "is_release (Free_Data file) = True"
| "is_release (Free_File file) = True"
| "is_release a = False"


text \<open>
  The cell the decoder writes for a pixel, and the samples of a pixel section read off one
  triplet after the other, as a list: \<open>scan_triplets k f\<close> is the list of the first \<open>k\<close>
  triplets of \<open>f\<close> and the stream behind them, or \<open>None\<close> when fewer than \<open>k\<close> triplets
  convert.
\<close>

fun cell :: "byte \<times> byte \<times> byte \<Rightarrow> byte list" where
  "cell (r, g, b) = [255, b, g, r]"

fun scan_triplets :: "nat \<Rightarrow> stream \<Rightarrow> ((byte \<times> byte \<times> byte) list \<times> stream) option" where
  "scan_triplets 0 f = Some ([], f)"
| "scan_triplets (Suc k) f =
     (case fscanf_hhu_hhu_hhu f 0 0 0 of
        (n, r, g, b, f') \<Rightarrow>
          if n \<noteq> 3 then None
          else (case scan_triplets k f' of
                  None \<Rightarrow> None
                | Some (ps, f'') \<Rightarrow> Some ((r, g, b) # ps, f'')))"

text \<open>
  The header of a file, when its three calls of \<^verbatim>\<open>fscanf\<close> succeed: width, height, the
  declared maximum, and the stream where the pixel section starts.
\<close>

definition header :: "stream \<Rightarrow> (int \<times> int \<times> int \<times> stream) option" where
  "header f =
     (case fscanf_2s f of
        (n1, magic, f1) \<Rightarrow>
          if n1 = 1 \<and> magic = ''P3'' then
            (case fscanf_i_i f1 0 0 of
               (n2, w, h, f2) \<Rightarrow>
                 if n2 = 2 then
                   (case fscanf_i f2 0 of
                      (n3, mc, f3) \<Rightarrow> if n3 = 1 then Some (w, h, mc, f3) else None)
                 else None)
          else None)"

text \<open>
  The buffer read back: the alpha byte of pixel \<open>i\<close>, and the inverse of the packing, which
  gives the samples (red, green, blue) of pixel \<open>i\<close>.
\<close>

definition alpha_at :: "byte list \<Rightarrow> nat \<Rightarrow> byte" where
  "alpha_at d i = d ! (4 * i)"

definition sample_at :: "byte list \<Rightarrow> nat \<Rightarrow> byte \<times> byte \<times> byte" where
  "sample_at d i = (d ! (4 * i + 3), d ! (4 * i + 2), d ! (4 * i + 1))"

text \<open>
  A stream starts with an integer token: after white space and an optional sign stands a
  decimal digit.  It starts with two when another integer token follows the first
  conversion.
\<close>

definition int_token :: "stream \<Rightarrow> bool" where
  "int_token f =
     (case snd (scan_sign (dropWhile isspace f)) of [] \<Rightarrow> False | c # r \<Rightarrow> isdigit c)"

definition two_int_tokens :: "stream \<Rightarrow> bool" where
  "two_int_tokens f \<longleftrightarrow>
     int_token f \<and> (case conv_i f of Converted a r \<Rightarrow> int_token r | _ \<Rightarrow> False)"

text \<open>
  A sample token is an optional sign and a non-empty run of decimal digits.  Its value is
  the integer it denotes; \<open>stored_sample\<close> is the byte \<^verbatim>\<open>%hhu\<close> stores for it.
\<close>

definition sample_token :: "string \<Rightarrow> bool" where
  "sample_token t =
     (case snd (scan_sign t) of [] \<Rightarrow> False | c # ds \<Rightarrow> list_all isdigit (c # ds))"

definition token_value :: "string \<Rightarrow> int" where
  "token_value t =
     (case scan_sign t of
        (neg, ds) \<Rightarrow> if neg then - number_value 10 ds else number_value 10 ds)"

definition stored_sample :: "string \<Rightarrow> byte" where
  "stored_sample t =
     (case scan_sign t of (neg, ds) \<Rightarrow> uchar_of_ulong (strtoul neg (number_value 10 ds)))"

definition white :: "string \<Rightarrow> bool" where
  "white ws = list_all isspace ws"

definition separator :: "string \<Rightarrow> bool" where
  "separator s \<longleftrightarrow> white s \<and> s \<noteq> []"

text \<open>
  A pixel section given by its tokens: every pixel is three sample tokens, each with the
  white space that stands in front of it.  \<open>stored_pixel\<close> is the triplet of bytes stored
  for the three tokens of a pixel.
\<close>

type_synonym pixel_tokens = "(string \<times> string) \<times> (string \<times> string) \<times> (string \<times> string)"

fun tokens_ok :: "pixel_tokens \<Rightarrow> bool" where
  "tokens_ok ((sr, tr), (sg, tg), (sb, tb)) \<longleftrightarrow>
     separator sr \<and> sample_token tr \<and> separator sg \<and> sample_token tg
     \<and> separator sb \<and> sample_token tb"

fun tokens_text :: "pixel_tokens list \<Rightarrow> string" where
  "tokens_text [] = []"
| "tokens_text (((sr, tr), (sg, tg), (sb, tb)) # px) =
     sr @ tr @ sg @ tg @ sb @ tb @ tokens_text px"

fun stored_pixel :: "pixel_tokens \<Rightarrow> byte \<times> byte \<times> byte" where
  "stored_pixel ((sr, tr), (sg, tg), (sb, tb)) =
     (stored_sample tr, stored_sample tg, stored_sample tb)"

text \<open>
  Bytes \<open>t\<close> appended to a file are behind the point where the decoder stopped when the
  decoder left bytes \<open>r\<close> of the file unread, or, if it read the file to its end, when \<open>t\<close>
  does not start with a byte that could continue a number.
\<close>

definition token_char :: "char \<Rightarrow> bool" where
  "token_char c \<longleftrightarrow> isxdigit c \<or> c = CHR ''x'' \<or> c = CHR ''X''"

definition ignorable :: "stream \<Rightarrow> stream \<Rightarrow> bool" where
  "ignorable r t \<longleftrightarrow> r \<noteq> [] \<or> t = [] \<or> \<not> token_char (hd t)"

text \<open>
  A well-formed file, as text: the tag, then width, height, the declared maximum and the
  samples of \<open>width * height\<close> pixels, each number written in decimal as \<^verbatim>\<open>printf\<close> writes it
  and preceded by white space; the samples lie between 0 and 255.  A pixel is given as its
  three samples, each with the white space in front of it.
\<close>

type_synonym pixel_text = "(string \<times> int) \<times> (string \<times> int) \<times> (string \<times> int)"

fun pixel_ok :: "pixel_text \<Rightarrow> bool" where
  "pixel_ok ((sr, r), (sg, g), (sb, b)) \<longleftrightarrow>
     separator sr \<and> 0 \<le> r \<and> r \<le> 255
     \<and> separator sg \<and> 0 \<le> g \<and> g \<le> 255
     \<and> separator sb \<and> 0 \<le> b \<and> b \<le> 255"

fun pixels_text :: "pixel_text list \<Rightarrow> string" where
  "pixels_text [] = []"
| "pixels_text (((sr, r), (sg, g), (sb, b)) # px) =
     sr @ show_dec r @ sg @ show_dec g @ sb @ show_dec b @ pixels_text px"

fun pixel_bytes :: "pixel_text \<Rightarrow> byte \<times> byte \<times> byte" where
  "pixel_bytes ((sr, r), (sg, g), (sb, b)) = (of_int r, of_int g, of_int b)"

definition p3_text ::
  "string \<Rightarrow> string \<Rightarrow> int \<Rightarrow> string \<Rightarrow> int \<Rightarrow> string \<Rightarrow> int \<Rightarrow> pixel_text list \<Rightarrow> string
     \<Rightarrow> stream" where
  "p3_text lead s1 w s2 h s3 mc px trail =
     lead @ ''P3'' @ s1 @ show_dec w @ s2 @ show_dec h @ s3 @ show_dec mc
     @ pixels_text px @ trail"

definition ends_token :: "stream \<Rightarrow> bool" where
  "ends_token rest \<longleftrightarrow> rest = [] \<or> isspace (hd rest)"

definition valid_p3 ::
  "string \<Rightarrow> string \<Rightarrow> int \<Rightarrow> string \<Rightarrow> int \<Rightarrow> string \<Rightarrow> int \<Rightarrow> pixel_text list \<Rightarrow> string
     \<Rightarrow> bool" where
  "valid_p3 lead s1 w s2 h s3 mc px trail \<longleftrightarrow>
     white lead \<and> separator s1 \<and> separator s2 \<and> separator s3
     \<and> 0 < w \<and> 0 < h \<and> w * h * 4 \<le> INT_MAX \<and> 0 < mc \<and> mc \<le> INT_MAX
     \<and> list_all pixel_ok px \<and> int (length px) = w * h \<and> ends_token trail"

section \<open>Example inputs\<close>

text \<open>A file system that holds the given files, with a heap that grants every request.\<close>

definition disk :: "(string \<times> stream) list \<Rightarrow> env" where
  "disk files =
     \<lparr>fopen = map_of files, heap_grants = (\<lambda>k n. True), indeterminate = (\<lambda>i. 0)\<rparr>"

definition sdl_works :: sdl where
  "sdl_works =
     \<lparr>init_ok = True, create_window_ok = (\<lambda>t w h. True), create_renderer_ok = True,
      create_texture_ok = (\<lambda>w h. True), lock_texture_ok = True, get_error = []\<rparr>"

definition sdl_without_textures :: sdl where
  "sdl_without_textures = sdl_works\<lparr>create_texture_ok := (\<lambda>w h. False)\<rparr>"

definition sdl_without_lock :: sdl where
  "sdl_without_lock = sdl_works\<lparr>lock_texture_ok := False\<rparr>"

definition red_green_ppm :: stream where
  "red_green_ppm = ''P3\<newline>2 1\<newline>255\<newline>255 0 0 0 255 0\<newline>''"

definition red_green :: PPMFile where
  "red_green =
     \<lparr>path = ''rg.ppm'', magic_number = ''P3'', width = 2, height = 1, max_color = 255,
      data = [255, 0, 0, 255, 255, 0, 255, 0]\<rparr>"

definition rg_pixels :: "pixel_text list" where
  "rg_pixels =
     [((''\<newline>'', 255), ('' '', 0), ('' '', 0)), (('' '', 0), ('' '', 255), ('' '', 0))]"

definition blue_ppm :: stream where
  "blue_ppm = ''P3 1 1 255 0 0 255''"

definition blue :: PPMFile where
  "blue =
     \<lparr>path = ''b.ppm'', magic_number = ''P3'', width = 1, height = 1, max_color = 255,
      data = [255, 255, 0, 0]\<rparr>"

definition truncated_ppm :: stream where
  "truncated_ppm = ''P3 2 1 255 255 0 0 0 255''"

definition cut0_ppm :: stream where
  "cut0_ppm = ''P3 2 1 255 255 0''"

definition p6_ppm :: stream where
  "p6_ppm = ''P6 1 1 255 abc''"

definition nodims_ppm :: stream where
  "nodims_ppm = ''P3 2 x 255 1 2 3''"

definition negative_ppm :: stream where
  "negative_ppm = ''P3 -1 -1 255 1 2 3''"

definition minus_one_image :: PPMFile where
  "minus_one_image =
     \<lparr>path = ''neg.ppm'', magic_number = ''P3'', width = - 1, height = - 1, max_color = 255,
      data = [255, 3, 2, 1]\<rparr>"

definition wrap_ppm :: stream where
  "wrap_ppm = ''P3 1 1 100 -1 256 300''"

definition wrapped :: PPMFile where
  "wrapped =
     \<lparr>path = ''wrap.ppm'', magic_number = ''P3'', width = 1, height = 1, max_color = 100,
      data = [255, 44, 0, 255]\<rparr>"

definition huge_ppm :: stream where
  "huge_ppm = ''P3 1 1 255 18446744073709551616 0 0''"

definition wrap_pixels :: "pixel_tokens list" where
  "wrap_pixels = [(('' '', ''-1''), ('' '', ''256''), ('' '', ''300''))]"

definition saturated :: PPMFile where
  "saturated =
     \<lparr>path = ''huge.ppm'', magic_number = ''P3'', width = 1, height = 1, max_color = 255,
      data = [255, 0, 0, 255]\<rparr>"

definition demo_disk :: env where
  "demo_disk =
     disk [(''rg.ppm'', red_green_ppm), (''b.ppm'', blue_ppm), (''cut.ppm'', truncated_ppm)]"

definition cut_disk :: env where
  "cut_disk = disk [(''cut0.ppm'', cut0_ppm), (''cut.ppm'', truncated_ppm)]"

definition tag_disk :: env where
  "tag_disk = disk [(''p6.ppm'', p6_ppm), (''empty.ppm'', [])]"

definition dims_disk :: env where
  "dims_disk = disk [(''nodims.ppm'', nodims_ppm), (''neg.ppm'', negative_ppm)]"

definition sample_disk :: env where
  "sample_disk = disk [(''wrap.ppm'', wrap_ppm), (''huge.ppm'', huge_ppm)]"

definition showing :: "PPMFile \<Rightarrow> viewer" where
  "showing file = \<lparr>ppm_file = Some file, running = True, trace = []\<rparr>"






section \<open>The example files, decoded\<close>

lemma read_rg: "ppm_read_file demo_disk ''rg.ppm'' = Some (Inr red_green)"
  by code_simp


lemma read_cut: "ppm_read_file demo_disk ''cut.ppm'' = Some (Inl Bad_Pixel_Data)"
  by code_simp

section \<open>The decoder's scanning\<close>

lemma not_space_P3 [simp]: "\<not> isspace CHR ''P''" "\<not> isspace CHR ''3''"
  by (simp_all add: isspace_def)

lemma fscanf_2s_P3:
  assumes "take 2 (dropWhile isspace f) = ''P3''"
  shows "fscanf_2s f = (1, ''P3'', drop 2 (dropWhile isspace f))"
proof -
  from assms obtain r where "dropWhile isspace f = CHR ''P'' # CHR ''3'' # r"
    by (cases "dropWhile isspace f"; cases "tl (dropWhile isspace f)") auto
  then show ?thesis
    by (simp add: fscanf_2s_def conv_s_def)
qed

lemma fscanf_2s_tag:
  assumes "fscanf_2s f = (n, magic, r)"
    and "n = 1" and "char_at magic 0 = CHR ''P''" and "char_at magic 1 = CHR ''3''"
  shows "take 2 (dropWhile isspace f) = ''P3''"
proof (cases "dropWhile isspace f")
  case Nil
  with assms show ?thesis by (simp add: fscanf_2s_def conv_s_def EOF_def)
next
  case (Cons c f1)
  have nc: "\<not> isspace c" using hd_dropWhile [of isspace f] Cons by simp
  show ?thesis
  proof (cases f1)
    case Nil
    with Cons have "dropWhile isspace f = [c]" by simp
    with nc assms(1) have "magic = [c]"
      by (simp add: fscanf_2s_def conv_s_def)
    with assms(4) show ?thesis by (simp add: char_at_def)
  next
    case (Cons d f2)
    with \<open>dropWhile isspace f = c # f1\<close> have g: "dropWhile isspace f = c # d # f2" by simp
    with nc assms(1) have "magic = (if isspace d then [c] else [c, d])"
      by (auto simp add: fscanf_2s_def conv_s_def)
    with assms(3,4) g show ?thesis
      by (auto simp add: char_at_def split: if_splits)
  qed
qed

lemma take_four_updates:
  assumes "m + 4 \<le> length xs"
  shows "take (m + 4) (xs[m := a, m + 1 := b, m + 2 := c, m + 3 := d]) = take m xs @ [a, b, c, d]"
proof (rule nth_equalityI)
  show "length (take (m + 4) (xs[m := a, m + 1 := b, m + 2 := c, m + 3 := d]))
          = length (take m xs @ [a, b, c, d])"
    using assms by simp
next
  fix i
  assume "i < length (take (m + 4) (xs[m := a, m + 1 := b, m + 2 := c, m + 3 := d]))"
  then have i: "i < m + 4" by simp
  consider "i < m" | "i = m" | "i = m + 1" | "i = m + 2" | "i = m + 3"
    using i by linarith
  then show "take (m + 4) (xs[m := a, m + 1 := b, m + 2 := c, m + 3 := d]) ! i
               = (take m xs @ [a, b, c, d]) ! i"
    using assms by cases (simp_all add: nth_append)
qed

lemma length_four_updates [simp]:
  "length (xs[m := a, k := b, l := c, j := d]) = length xs"
  by simp

declare read_pixels.simps [simp del]

lemma read_pixels_scan:
  assumes "0 \<le> i" and "i \<le> n" and "length buf = nat (n * 4)"
  shows "read_pixels i n f buf =
           (case scan_triplets (nat (n - i)) f of
              None \<Rightarrow> None
            | Some (ps, r) \<Rightarrow> Some (take (nat (i * 4)) buf @ concat (map cell ps), r))"
  using assms
proof (induction i n f buf rule: read_pixels.induct)
  case (1 i n f buf)
  show ?case
  proof (cases "i < n")
    case False
    with "1.prems" have "i = n" by simp
    with "1.prems" show ?thesis by (subst read_pixels.simps) simp
  next
    case True
    then have k: "nat (n - i) = Suc (nat (n - (i + 1)))" by simp
    obtain c r g b f' where sc: "fscanf_hhu_hhu_hhu f 0 0 0 = (c, r, g, b, f')"
      by (cases "fscanf_hhu_hhu_hhu f 0 0 0") auto
    show ?thesis
    proof (cases "c = 3")
      case False
      with True sc show ?thesis
        by (subst read_pixels.simps) (simp add: k)
    next
      case c3: True
      let ?buf = "buf[nat (i * 4) := 255, nat (i * 4 + 1) := b,
                      nat (i * 4 + 2) := g, nat (i * 4 + 3) := r]"
      have ih: "read_pixels (i + 1) n f' ?buf =
           (case scan_triplets (nat (n - (i + 1))) f' of
              None \<Rightarrow> None
            | Some (ps, r) \<Rightarrow> Some (take (nat ((i + 1) * 4)) ?buf @ concat (map cell ps), r))"
        using "1.IH" [OF True sc [symmetric] refl refl refl] c3 True "1.prems" by simp
      have idx: "nat (i * 4 + 1) = nat (i * 4) + 1" "nat (i * 4 + 2) = nat (i * 4) + 2"
        "nat (i * 4 + 3) = nat (i * 4) + 3" "nat ((i + 1) * 4) = nat (i * 4) + 4"
        using "1.prems" by (simp_all add: nat_add_distrib algebra_simps)
      have len: "nat (i * 4) + 4 \<le> length buf"
        using True "1.prems" by (simp add: nat_le_iff nat_add_distrib) 
      have tk: "take (nat ((i + 1) * 4)) ?buf = take (nat (i * 4)) buf @ [255, b, g, r]"
        unfolding idx using take_four_updates [OF len] by simp
      have step: "read_pixels i n f buf = read_pixels (i + 1) n f' ?buf"
        using True sc c3 by (subst read_pixels.simps) simp
      have sk: "scan_triplets (nat (n - i)) f =
                  (case scan_triplets (nat (n - (i + 1))) f' of
                     None \<Rightarrow> None
                   | Some (ps, f'') \<Rightarrow> Some ((r, g, b) # ps, f''))"
        unfolding k using sc c3 by simp
      show ?thesis
        unfolding step ih sk tk
        by (simp split: option.splits)
    qed
  qed
qed

lemma header_Some_iff:
  "header f = Some (w, h, mc, f3) \<longleftrightarrow>
     take 2 (dropWhile isspace f) = ''P3''
     \<and> (\<exists>f2. fscanf_i_i (drop 2 (dropWhile isspace f)) 0 0 = (2, w, h, f2)
             \<and> fscanf_i f2 0 = (1, mc, f3))"
proof (cases "take 2 (dropWhile isspace f) = ''P3''")
  case True
  from fscanf_2s_P3 [OF this] True show ?thesis
    by (auto simp add: header_def split: prod.splits if_splits)
next
  case False
  obtain n magic r where s: "fscanf_2s f = (n, magic, r)" by (cases "fscanf_2s f") auto
  have "\<not> (n = 1 \<and> magic = ''P3'')"
  proof
    assume "n = 1 \<and> magic = ''P3''"
    then have "take 2 (dropWhile isspace f) = ''P3''"
      using fscanf_2s_tag [OF s] by (simp add: char_at_def)
    with False show False by simp
  qed
  with s False show ?thesis by (auto simp add: header_def)
qed

lemma malloc_size_t:
  assumes "in_int_range v"
  shows "malloc e k (size_t_of_int v) =
           (if 0 \<le> v \<and> heap_grants e k v then Some (map (indeterminate e) [0..<nat v]) else None)"
proof (cases "0 \<le> v")
  case True
  with assms have "v mod 2 ^ 64 = v"
    by (simp add: in_int_range_def INT_MAX_def)
  with True assms show ?thesis
    by (simp add: malloc_def size_t_of_int_def PTRDIFF_MAX_def in_int_range_def INT_MAX_def)
next
  case False
  with assms have "(v + 2 ^ 64) mod 2 ^ 64 = v + 2 ^ 64"
    by (intro mod_pos_pos_trivial) (simp_all add: in_int_range_def INT_MIN_def)
  then have "v mod 2 ^ 64 = v + 2 ^ 64" by simp
  with False assms show ?thesis
    by (simp add: malloc_def size_t_of_int_def PTRDIFF_MAX_def in_int_range_def INT_MIN_def)
qed

lemma ppm_read_stream_without_header:
  assumes "header f = None"
  shows "ppm_read_stream e p f = Some (Inl Not_P3)
         \<or> ppm_read_stream e p f = Some (Inl Bad_Dimensions)
         \<or> ppm_read_stream e p f = Some (Inl Bad_Max_Color)"
proof (cases "take 2 (dropWhile isspace f) = ''P3''")
  case True
  from fscanf_2s_P3 [OF this] assms show ?thesis
    by (auto simp add: header_def ppm_read_stream_def char_at_def split: prod.splits if_splits)
next
  case False
  obtain n magic r where s: "fscanf_2s f = (n, magic, r)" by (cases "fscanf_2s f") auto
  with False have "n \<noteq> 1 \<or> char_at magic 0 \<noteq> CHR ''P'' \<or> char_at magic 1 \<noteq> CHR ''3''"
    using fscanf_2s_tag by blast
  with s show ?thesis by (simp add: ppm_read_stream_def)
qed

lemma ppm_read_stream_with_header:
  assumes "header f = Some (w, h, mc, f3)"
  shows "ppm_read_stream e p f =
           (if \<not> in_int_range (w * h) \<or> \<not> in_int_range (w * h * 4) then None
            else if w * h < 0 \<or> \<not> heap_grants e 0 (w * h * 4) then Some (Inl Data_Alloc_Failed)
            else (case scan_triplets (nat (w * h)) f3 of
                    None \<Rightarrow> Some (Inl Bad_Pixel_Data)
                  | Some (ps, r) \<Rightarrow>
                      if \<not> heap_grants e 1 sizeof_PPMFile then Some (Inl Struct_Alloc_Failed)
                      else Some (Inr (\<lparr>path = p, magic_number = ''P3'', width = w, height = h,
                                        max_color = mc, data = concat (map cell ps)\<rparr>, r))))"
proof -
  from assms obtain f2 where
    tag: "take 2 (dropWhile isspace f) = ''P3''"
    and dims: "fscanf_i_i (drop 2 (dropWhile isspace f)) 0 0 = (2, w, h, f2)"
    and mx: "fscanf_i f2 0 = (1, mc, f3)"
    by (auto simp add: header_Some_iff)
  have start: "ppm_read_stream e p f =
      (if \<not> in_int_range (w * h) then None
       else if \<not> in_int_range (w * h * 4) then None
       else (case malloc e 0 (size_t_of_int (w * h * 4)) of
               None \<Rightarrow> Some (Inl Data_Alloc_Failed)
             | Some buf \<Rightarrow>
                 (case read_pixels 0 (w * h) f3 buf of
                    None \<Rightarrow> Some (Inl Bad_Pixel_Data)
                  | Some (buf', f4) \<Rightarrow>
                      (case malloc e 1 sizeof_PPMFile of
                         None \<Rightarrow> Some (Inl Struct_Alloc_Failed)
                       | Some _ \<Rightarrow>
                           Some (Inr (\<lparr>path = p, magic_number = ''P3'', width = w,
                                        height = h, max_color = mc, data = buf'\<rparr>, f4))))))"
    using fscanf_2s_P3 [OF tag] dims mx
    by (simp add: ppm_read_stream_def char_at_def)
  show ?thesis
  proof (cases "in_int_range (w * h) \<and> in_int_range (w * h * 4)")
    case False
    then show ?thesis unfolding start by auto
  next
    case True
    then have r4: "in_int_range (w * h * 4)" by simp
    have pos: "0 \<le> w * h * 4 \<longleftrightarrow> 0 \<le> w * h" by (simp add: mult.commute)
    show ?thesis
    proof (cases "0 \<le> w * h \<and> heap_grants e 0 (w * h * 4)")
      case False
      then have "malloc e 0 (size_t_of_int (w * h * 4)) = None"
        unfolding malloc_size_t [OF r4] pos by simp
      with True False show ?thesis
        unfolding start by auto
    next
      case g: True
      let ?buf = "map (indeterminate e) [0..<nat (w * h * 4)]"
      have m: "malloc e 0 (size_t_of_int (w * h * 4)) = Some ?buf"
        unfolding malloc_size_t [OF r4] pos using g by simp
      have rp: "read_pixels 0 (w * h) f3 ?buf =
           (case scan_triplets (nat (w * h)) f3 of
              None \<Rightarrow> None
            | Some (ps, r) \<Rightarrow> Some (concat (map cell ps), r))"
        using read_pixels_scan [of 0 "w * h" ?buf f3] g
        by (simp add: mult.commute split: option.splits)
      have s: "malloc e k sizeof_PPMFile =
                 (if heap_grants e k sizeof_PPMFile
                  then Some (map (indeterminate e) [0..<nat sizeof_PPMFile]) else None)" for k
        by (simp add: malloc_def sizeof_PPMFile_def PTRDIFF_MAX_def)
      show ?thesis
        using True g by (simp add: start m rp s split: option.splits)
    qed
  qed
qed

lemma scan_triplets_length:
  "scan_triplets k f = Some (ps, r) \<Longrightarrow> length ps = k"
  by (induction k arbitrary: f ps) (auto split: prod.splits if_splits option.splits)

lemma length_concat_cells: "length (concat (map cell ps)) = 4 * length ps"
  by (induction ps) auto

lemma length_cell: "length (cell q) = 4"
  by (cases q) simp

lemma concat_cells_nth:
  assumes "i < length ps" and "k < 4"
  shows "concat (map cell ps) ! (4 * i + k) = cell (ps ! i) ! k"
  using assms
proof (induction ps arbitrary: i)
  case Nil
  then show ?case by simp
next
  case (Cons q ps)
  show ?case
  proof (cases i)
    case 0
    with Cons.prems show ?thesis
      by (simp add: nth_append length_cell del: cell.simps)
  next
    case (Suc j)
    with Cons.prems have "j < length ps" by simp
    from Cons.IH [OF this Cons.prems(2)] Suc show ?thesis
      by (simp add: nth_append length_cell del: cell.simps)
  qed
qed

lemma cells_alpha_sample:
  assumes "i < length ps"
  shows "alpha_at (concat (map cell ps)) i = 255 \<and> sample_at (concat (map cell ps)) i = ps ! i"
proof -
  obtain r g b where q: "ps ! i = (r, g, b)" by (cases "ps ! i") auto
  have "concat (map cell ps) ! (4 * i + 0) = cell (ps ! i) ! 0"
    "concat (map cell ps) ! (4 * i + 1) = cell (ps ! i) ! 1"
    "concat (map cell ps) ! (4 * i + 2) = cell (ps ! i) ! 2"
    "concat (map cell ps) ! (4 * i + 3) = cell (ps ! i) ! 3"
    using assms by (intro concat_cells_nth; simp)+
  then show ?thesis
    by (simp add: alpha_at_def sample_at_def q)
qed

lemma ppm_read_file_Inr:
  assumes "fopen e p = Some f" and "ppm_read_file e p = Some (Inr img)"
  shows "\<exists>mc f3 ps r.
           header f = Some (width img, height img, mc, f3)
           \<and> 0 \<le> width img * height img
           \<and> in_int_range (width img * height img * 4)
           \<and> scan_triplets (nat (width img * height img)) f3 = Some (ps, r)
           \<and> ppm_read_stream e p f = Some (Inr (img, r))
           \<and> img = \<lparr>path = p, magic_number = ''P3'', width = width img, height = height img,
                     max_color = mc, data = concat (map cell ps)\<rparr>"
proof (cases "header f")
  case None
  from ppm_read_stream_without_header [OF this, of e p] assms show ?thesis
    by (auto simp add: ppm_read_file_def)
next
  case (Some hd)
  obtain w h mc f3 where hd: "hd = (w, h, mc, f3)" by (cases hd) auto
  from assms ppm_read_stream_with_header [of f w h mc f3 e p] Some hd
  show ?thesis
    by (auto simp add: ppm_read_file_def split: if_splits option.splits)
qed

lemma in_range_of_product:
  "0 \<le> n \<Longrightarrow> n * 4 \<le> INT_MAX \<Longrightarrow> in_int_range n \<and> in_int_range (n * 4)"
  by (simp add: in_int_range_def INT_MIN_def INT_MAX_def)

lemma number_i_Converted_iff:
  "(\<exists>v r. number_i f = Converted v r)
     \<longleftrightarrow> (case snd (scan_sign f) of [] \<Rightarrow> False | c # r \<Rightarrow> isdigit c)"
proof -
  have z: "isdigit CHR ''0''" by (simp add: isdigit_def)
  obtain negative f1 where s: "scan_sign f = (negative, f1)" by (cases "scan_sign f") auto
  show ?thesis
    using z by (auto simp add: number_i_def s split: list.splits)
qed

lemma conv_i_Converted_iff: "(\<exists>v r. conv_i f = Converted v r) \<longleftrightarrow> int_token f"
proof (cases "dropWhile isspace f")
  case Nil
  show ?thesis by (simp add: conv_i_def int_token_def scan_sign_def Nil)
next
  case (Cons c f1)
  have "(\<exists>v r. conv_i f = Converted v r) \<longleftrightarrow> (\<exists>v r. number_i (c # f1) = Converted v r)"
    by (cases "number_i (c # f1)") (auto simp add: conv_i_def Cons)
  also have "\<dots> \<longleftrightarrow> int_token f"
    unfolding number_i_Converted_iff by (simp add: int_token_def Cons)
  finally show ?thesis .
qed

lemma conv_i_skips_space: "conv_i (dropWhile isspace f) = conv_i f"
  by (simp add: conv_i_def)

lemma fscanf_i_i_count: "fst (fscanf_i_i f a0 b0) = 2 \<longleftrightarrow> two_int_tokens f"
proof (cases "conv_i f")
  case (Converted a r)
  then have 1: "int_token f" using conv_i_Converted_iff by blast
  show ?thesis
  proof (cases "conv_i r")
    case c2: (Converted b r2)
    then have "int_token r" using conv_i_Converted_iff by blast
    with 1 Converted c2 show ?thesis
      by (simp add: fscanf_i_i_def two_int_tokens_def conv_i_skips_space)
  next
    case (Matching_Failure x)
    then have "\<not> int_token r" using conv_i_Converted_iff [of r] by simp
    with Converted Matching_Failure show ?thesis
      by (simp add: fscanf_i_i_def two_int_tokens_def conv_i_skips_space)
  next
    case Input_Failure
    then have "\<not> int_token r" using conv_i_Converted_iff [of r] by simp
    with Converted Input_Failure show ?thesis
      by (simp add: fscanf_i_i_def two_int_tokens_def conv_i_skips_space)
  qed
next
  case (Matching_Failure x)
  then have "\<not> int_token f" using conv_i_Converted_iff [of f] by simp
  with Matching_Failure show ?thesis
    by (simp add: fscanf_i_i_def two_int_tokens_def)
next
  case Input_Failure
  then have "\<not> int_token f" using conv_i_Converted_iff [of f] by simp
  with Input_Failure show ?thesis
    by (simp add: fscanf_i_i_def two_int_tokens_def EOF_def)
qed

subsection \<open>Sample tokens\<close>

lemma digit_not_space: "isdigit c \<Longrightarrow> \<not> isspace c"
  by (auto simp add: isdigit_def isspace_def)

lemma sign_not_space [simp]: "\<not> isspace CHR ''-''" "\<not> isspace CHR ''+''"
  by (simp_all add: isspace_def)

lemma sign_not_digit [simp]: "\<not> isdigit CHR ''-''" "\<not> isdigit CHR ''+''"
  by (simp_all add: isdigit_def)

lemma sample_token_cases:
  assumes "sample_token t"
  obtains (minus) ds where "t = CHR ''-'' # ds" "ds \<noteq> []" "list_all isdigit ds"
    | (plus) ds where "t = CHR ''+'' # ds" "ds \<noteq> []" "list_all isdigit ds"
    | (plain) "t \<noteq> []" "list_all isdigit t"
  using assms
  by (cases t) (auto simp add: sample_token_def scan_sign_def split: if_splits list.splits)

lemma dropWhile_white:
  assumes "white ws" and "\<not> isspace c"
  shows "dropWhile isspace (ws @ c # r) = c # r"
  using assms by (induction ws) (auto simp add: white_def)

lemma digits_then_rest:
  assumes "list_all isdigit ds" and "rest = [] \<or> \<not> isdigit (hd rest)"
  shows "takeWhile isdigit (ds @ rest) = ds \<and> dropWhile isdigit (ds @ rest) = rest"
proof -
  have "takeWhile isdigit rest = [] \<and> dropWhile isdigit rest = rest"
    using assms(2) by (cases rest) auto
  with assms(1) show ?thesis by (induction ds) auto
qed

lemma number_u_token:
  assumes "sample_token t" and "rest = [] \<or> \<not> isdigit (hd rest)"
  shows "number_u (t @ rest) =
           Converted (fst (scan_sign t), number_value 10 (snd (scan_sign t))) rest"
  using assms(1)
proof (cases rule: sample_token_cases)
  case (minus ds)
  with digits_then_rest [OF minus(3) assms(2)] show ?thesis
    by (auto simp add: number_u_def scan_sign_def)
next
  case (plus ds)
  with digits_then_rest [OF plus(3) assms(2)] show ?thesis
    by (auto simp add: number_u_def scan_sign_def)
next
  case plain
  then obtain c ds where t: "t = c # ds" and c: "isdigit c" by (cases t) auto
  then have s: "scan_sign (t @ rest) = (False, t @ rest)" "scan_sign t = (False, t)"
    by (auto simp add: scan_sign_def)
  from digits_then_rest [OF plain(2) assms(2)] plain(1) show ?thesis
    by (auto simp add: number_u_def s)
qed

lemma conv_hhu_token:
  assumes "white ws" and "sample_token t" and "rest = [] \<or> \<not> isdigit (hd rest)"
  shows "conv_hhu (ws @ t @ rest) = Converted (stored_sample t) rest"
proof -
  from assms(2) obtain c r where t: "t = c # r" and c: "\<not> isspace c"
    by (cases rule: sample_token_cases; cases t) (auto dest: digit_not_space)
  have d: "dropWhile isspace (ws @ t @ rest) = c # (r @ rest)"
    using dropWhile_white [OF assms(1) c, of "r @ rest"] t by simp
  have n: "number_u (c # (r @ rest)) =
             Converted (fst (scan_sign t), number_value 10 (snd (scan_sign t))) rest"
    using number_u_token [OF assms(2,3)] t by simp
  show ?thesis
    by (simp add: conv_hhu_def d n stored_sample_def split: prod.splits)
qed

lemma digit_value_range:
  assumes "isdigit c"
  shows "0 \<le> digit_value c \<and> digit_value c \<le> 9"
proof -
  have "(of_char c :: int) = int (of_char c)" by (simp add: of_nat_of_char)
  with assms show ?thesis
    by (simp add: isdigit_def digit_value_def Let_def)
qed

lemma foldl_digits_nonneg:
  "list_all isdigit ds \<Longrightarrow> 0 \<le> a \<Longrightarrow> 0 \<le> foldl (\<lambda>a c. a * 10 + digit_value c) a ds"
proof (induction ds arbitrary: a)
  case Nil
  then show ?case by simp
next
  case (Cons c ds)
  then have "0 \<le> a * 10 + digit_value c"
    using digit_value_range [of c] by simp
  with Cons show ?case by simp
qed

lemma number_value_nonneg: "list_all isdigit ds \<Longrightarrow> 0 \<le> number_value 10 ds"
  using foldl_digits_nonneg [of ds 0] by (simp add: number_value_def)

lemma sample_token_digits:
  "sample_token t \<Longrightarrow> list_all isdigit (snd (scan_sign t))"
  by (cases rule: sample_token_cases, assumption) (auto simp add: scan_sign_def split: list.splits)

lemma uchar_of_ulong_uint: "uint (uchar_of_ulong n) = n mod 256"
  by (simp add: uchar_of_ulong_def uint_word_of_int)

lemma stored_sample_mod:
  assumes "sample_token t" and "\<bar>token_value t\<bar> < 2 ^ 64"
  shows "uint (stored_sample t) = token_value t mod 256"
proof -
  obtain neg ds where s: "scan_sign t = (neg, ds)" by (cases "scan_sign t") auto
  with assms(1) have n0: "0 \<le> number_value 10 ds"
    using sample_token_digits [of t] number_value_nonneg by simp
  with assms(2) s have n1: "number_value 10 ds < 2 ^ 64"
    by (simp add: token_value_def split: if_splits)
  show ?thesis
  proof (cases neg)
    case False
    with s n1 show ?thesis
      by (simp add: stored_sample_def token_value_def strtoul_def uchar_of_ulong_uint)
  next
    case True
    have "(2 ^ 64 - number_value 10 ds) mod 2 ^ 64 mod 256 = (2 ^ 64 - number_value 10 ds) mod 256"
      by (rule mod_mod_cancel) simp
    also have "\<dots> = (- number_value 10 ds) mod 256"
    proof -
      have "(2 ^ 64 - number_value 10 ds) = (- number_value 10 ds) + 72057594037927936 * 256"
        by simp
      then show ?thesis by (metis mod_mult_self1)
    qed
    finally show ?thesis
      using True s n1 by (simp add: stored_sample_def token_value_def strtoul_def uchar_of_ulong_uint)
  qed
qed

lemma stored_sample_saturated:
  assumes "sample_token t" and "2 ^ 64 \<le> \<bar>token_value t\<bar>"
  shows "stored_sample t = 255"
proof -
  obtain neg ds where s: "scan_sign t = (neg, ds)" by (cases "scan_sign t") auto
  with assms(1) have n0: "0 \<le> number_value 10 ds"
    using sample_token_digits [of t] number_value_nonneg by simp
  with assms(2) s have n1: "2 ^ 64 \<le> number_value 10 ds"
    by (simp add: token_value_def split: if_splits)
  have "(of_int (2 ^ 64 - 1) :: byte) = 255" by simp
  with s n1 show ?thesis
    by (simp add: stored_sample_def strtoul_def uchar_of_ulong_def)
qed

lemma conv_hhu_skips_space: "conv_hhu (dropWhile isspace f) = conv_hhu f"
  by (simp add: conv_hhu_def)

lemma white_then_not_digit:
  "white ws \<Longrightarrow> ws \<noteq> [] \<Longrightarrow> ws @ x = [] \<or> \<not> isdigit (hd (ws @ x))"
  by (cases ws) (auto simp add: white_def dest: digit_not_space)

lemma fscanf_three_tokens:
  assumes "white ws1" and "sample_token t1"
    and "white ws2" and "ws2 \<noteq> []" and "sample_token t2"
    and "white ws3" and "ws3 \<noteq> []" and "sample_token t3"
    and "rest = [] \<or> \<not> isdigit (hd rest)"
  shows "fscanf_hhu_hhu_hhu (ws1 @ t1 @ ws2 @ t2 @ ws3 @ t3 @ rest) r0 g0 b0 =
           (3, stored_sample t1, stored_sample t2, stored_sample t3, rest)"
proof -
  have 1: "conv_hhu (ws1 @ t1 @ ws2 @ t2 @ ws3 @ t3 @ rest)
             = Converted (stored_sample t1) (ws2 @ t2 @ ws3 @ t3 @ rest)"
    by (rule conv_hhu_token [OF assms(1,2) white_then_not_digit [OF assms(3,4)]])
  have 2: "conv_hhu (ws2 @ t2 @ ws3 @ t3 @ rest) = Converted (stored_sample t2) (ws3 @ t3 @ rest)"
    by (rule conv_hhu_token [OF assms(3,5) white_then_not_digit [OF assms(6,7)]])
  have 3: "conv_hhu (ws3 @ t3 @ rest) = Converted (stored_sample t3) rest"
    by (rule conv_hhu_token [OF assms(6,8,9)])
  show ?thesis
    by (simp add: fscanf_hhu_hhu_hhu_def 1 2 3 conv_hhu_skips_space)
qed

subsection \<open>Bytes behind the point where a conversion stops\<close>

lemma run_append:
  assumes "dropWhile P xs \<noteq> [] \<or> t = [] \<or> \<not> P (hd t)"
  shows "takeWhile P (xs @ t) = takeWhile P xs \<and> dropWhile P (xs @ t) = dropWhile P xs @ t"
  using assms
proof (induction xs)
  case Nil
  then show ?case by (cases t) auto
next
  case (Cons x xs)
  then show ?case by auto
qed

lemma not_token_char:
  assumes "\<not> token_char c"
  shows "\<not> isxdigit c" "\<not> isdigit c" "\<not> isodigit c" "c \<noteq> CHR ''x''" "c \<noteq> CHR ''X''"
  using assms by (auto simp add: token_char_def isxdigit_def isodigit_def isdigit_def)

lemma ignorable_run:
  assumes "ignorable (dropWhile P xs) t" and "\<And>c. \<not> token_char c \<Longrightarrow> \<not> P c"
  shows "takeWhile P (xs @ t) = takeWhile P xs" "dropWhile P (xs @ t) = dropWhile P xs @ t"
  using run_append [of P xs t] assms by (auto simp add: ignorable_def)

lemma scan_sign_append:
  "f \<noteq> [] \<Longrightarrow> scan_sign (f @ t) = (fst (scan_sign f), snd (scan_sign f) @ t)"
  by (cases f) (auto simp add: scan_sign_def)

lemma number_i_append:
  assumes "number_i f = Converted v r" and "ignorable r t"
  shows "number_i (f @ t) = Converted v (r @ t)"
proof -
  obtain neg f1 where s: "scan_sign f = (neg, f1)" by (cases "scan_sign f") auto
  from assms(1) s have f1: "f1 \<noteq> []" by (auto simp add: number_i_def)
  then have f: "f \<noteq> []" using s by (auto simp add: scan_sign_def)
  from f1 obtain c f2 where c: "f1 = c # f2" by (cases f1) auto
  have s': "scan_sign (f @ t) = (neg, (c # f2) @ t)"
    using scan_sign_append [OF f, of t] s c by simp
  show ?thesis
  proof (cases "c = CHR ''0''")
    case False
    with assms(1) s c have d: "isdigit c" and v: "v = (neg, number_value 10 (takeWhile isdigit f1))"
      and r: "r = dropWhile isdigit f1"
      by (auto simp add: number_i_def split: if_splits)
    from ignorable_run [of isdigit f1 t] assms(2) r not_token_char(2)
    have "takeWhile isdigit (f1 @ t) = takeWhile isdigit f1"
      "dropWhile isdigit (f1 @ t) = dropWhile isdigit f1 @ t" by auto
    with False d v r c show ?thesis
      by (simp add: number_i_def s')
  next
    case zero: True
    show ?thesis
    proof (cases f2)
      case Nil
      with assms(1) s c zero have v: "v = (neg, 0)" and r: "r = []"
        by (auto simp add: number_i_def)
      show ?thesis
      proof (cases t)
        case Nil
        with assms(1) show ?thesis by simp
      next
        case (Cons x t')
        with assms(2) r have x: "\<not> token_char x" by (simp add: ignorable_def)
        have s'': "scan_sign (f @ x # t') = (neg, CHR ''0'' # x # t')"
          using s' Cons \<open>f2 = []\<close> zero by simp
        from not_token_char [OF x] Cons v r show ?thesis
          by (simp add: number_i_def s'' number_value_def)
      qed
    next
      case (Cons x f3)
      show ?thesis
      proof (cases "x = CHR ''x'' \<or> x = CHR ''X''")
        case True
        with assms(1) s c zero Cons have v: "v = (neg, number_value 16 (takeWhile isxdigit f3))"
          and r: "r = dropWhile isxdigit f3"
          by (auto simp add: number_i_def)
        from ignorable_run [of isxdigit f3 t] assms(2) r not_token_char(1)
        have "takeWhile isxdigit (f3 @ t) = takeWhile isxdigit f3"
          "dropWhile isxdigit (f3 @ t) = dropWhile isxdigit f3 @ t" by auto
        with True v r zero Cons show ?thesis
          by (auto simp add: number_i_def s')
      next
        case False
        with assms(1) s c zero Cons have v: "v = (neg, number_value 8 (takeWhile isodigit f2))"
          and r: "r = dropWhile isodigit f2"
          by (auto simp add: number_i_def)
        from ignorable_run [of isodigit f2 t] assms(2) r not_token_char(3)
        have "takeWhile isodigit (f2 @ t) = takeWhile isodigit f2"
          "dropWhile isodigit (f2 @ t) = dropWhile isodigit f2 @ t" by auto
        with False v r zero Cons show ?thesis
          by (auto simp add: number_i_def s')
      qed
    qed
  qed
qed

lemma number_u_append:
  assumes "number_u f = Converted v r" and "ignorable r t"
  shows "number_u (f @ t) = Converted v (r @ t)"
proof -
  obtain neg f1 where s: "scan_sign f = (neg, f1)" by (cases "scan_sign f") auto
  from assms(1) s have f1: "f1 \<noteq> []" by (auto simp add: number_u_def split: if_splits)
  then have f: "f \<noteq> []" using s by (auto simp add: scan_sign_def)
  have s': "scan_sign (f @ t) = (neg, f1 @ t)"
    using scan_sign_append [OF f, of t] s by simp
  from assms(1) s have v: "v = (neg, number_value 10 (takeWhile isdigit f1))"
    and r: "r = dropWhile isdigit f1" and ne: "takeWhile isdigit f1 \<noteq> []"
    by (auto simp add: number_u_def split: if_splits)
  from ignorable_run [of isdigit f1 t] assms(2) r not_token_char(2)
  have "takeWhile isdigit (f1 @ t) = takeWhile isdigit f1"
    "dropWhile isdigit (f1 @ t) = dropWhile isdigit f1 @ t" by auto
  with v r ne show ?thesis
    by (simp add: number_u_def s')
qed

lemma skip_space_append:
  "dropWhile isspace f \<noteq> [] \<Longrightarrow> dropWhile isspace (f @ t) = dropWhile isspace f @ t"
  using run_append [of isspace f t] by simp

lemma conv_i_append:
  assumes "conv_i f = Converted v r" and "ignorable r t"
  shows "conv_i (f @ t) = Converted v (r @ t)"
proof -
  from assms(1) obtain c f1 where g: "dropWhile isspace f = c # f1"
    by (cases "dropWhile isspace f") (auto simp add: conv_i_def)
  then have g': "dropWhile isspace (f @ t) = c # (f1 @ t)"
    using skip_space_append [of f t] by simp
  from assms(1) g obtain neg n where n: "number_i (c # f1) = Converted (neg, n) r"
    and v: "v = int_of_long (strtol neg n)"
    by (auto simp add: conv_i_def split: conv.splits)
  from number_i_append [OF n assms(2)] v show ?thesis
    by (simp add: conv_i_def g')
qed

lemma conv_hhu_append:
  assumes "conv_hhu f = Converted v r" and "ignorable r t"
  shows "conv_hhu (f @ t) = Converted v (r @ t)"
proof -
  from assms(1) obtain c f1 where g: "dropWhile isspace f = c # f1"
    by (cases "dropWhile isspace f") (auto simp add: conv_hhu_def)
  then have g': "dropWhile isspace (f @ t) = c # (f1 @ t)"
    using skip_space_append [of f t] by simp
  from assms(1) g obtain neg n where n: "number_u (c # f1) = Converted (neg, n) r"
    and v: "v = uchar_of_ulong (strtoul neg n)"
    by (auto simp add: conv_hhu_def split: conv.splits)
  from number_u_append [OF n assms(2)] v show ?thesis
    by (simp add: conv_hhu_def g')
qed

lemma conv_hhu_Nil: "conv_hhu [] = Input_Failure"
  by (simp add: conv_hhu_def)

lemma conv_i_Nil: "conv_i [] = Input_Failure"
  by (simp add: conv_i_def)

lemma ignorable_nonempty: "r \<noteq> [] \<Longrightarrow> ignorable r t"
  by (simp add: ignorable_def)

lemma conv_i_then_ignorable: "conv_i r1 = Converted b r2 \<Longrightarrow> ignorable r1 t"
  by (cases r1) (auto simp add: conv_i_Nil ignorable_def)

lemma conv_hhu_then_ignorable: "conv_hhu r1 = Converted b r2 \<Longrightarrow> ignorable r1 t"
  by (cases r1) (auto simp add: conv_hhu_Nil ignorable_def)

lemma fscanf_i_append:
  assumes "fscanf_i f a0 = (1, a, r)" and "ignorable r t"
  shows "fscanf_i (f @ t) a0 = (1, a, r @ t)"
proof -
  from assms(1) have "conv_i f = Converted a r"
    by (cases "conv_i f") (auto simp add: fscanf_i_def EOF_def)
  from conv_i_append [OF this assms(2)] show ?thesis
    by (simp add: fscanf_i_def)
qed

lemma fscanf_i_i_append:
  assumes "fscanf_i_i f a0 b0 = (2, a, b, r)" and "ignorable r t"
  shows "fscanf_i_i (f @ t) a0 b0 = (2, a, b, r @ t)"
proof -
  from assms(1) obtain r1 where 1: "conv_i f = Converted a r1"
    and 2: "conv_i r1 = Converted b r"
    by (cases "conv_i f"; cases "conv_i (dropWhile isspace (case conv_i f of Converted a r \<Rightarrow> r))")
       (auto simp add: fscanf_i_i_def EOF_def conv_i_skips_space split: conv.splits)
  from conv_i_append [OF 1 conv_i_then_ignorable [OF 2]] conv_i_append [OF 2 assms(2)]
  show ?thesis
    by (simp add: fscanf_i_i_def conv_i_skips_space)
qed

lemma fscanf_hhu_hhu_hhu_append:
  assumes "fscanf_hhu_hhu_hhu f r0 g0 b0 = (3, r, g, b, f')" and "ignorable f' t"
  shows "fscanf_hhu_hhu_hhu (f @ t) r0 g0 b0 = (3, r, g, b, f' @ t)"
proof -
  from assms(1) obtain f1 f2 where 1: "conv_hhu f = Converted r f1"
    and 2: "conv_hhu f1 = Converted g f2" and 3: "conv_hhu f2 = Converted b f'"
    by (auto simp add: fscanf_hhu_hhu_hhu_def EOF_def conv_hhu_skips_space split: conv.splits)
  from conv_hhu_append [OF 1 conv_hhu_then_ignorable [OF 2]]
    conv_hhu_append [OF 2 conv_hhu_then_ignorable [OF 3]]
    conv_hhu_append [OF 3 assms(2)]
  show ?thesis
    by (simp add: fscanf_hhu_hhu_hhu_def conv_hhu_skips_space)
qed

lemma scan_triplets_Nil: "scan_triplets k [] = Some (ps, r) \<Longrightarrow> r = []"
  by (cases k) (auto simp add: fscanf_hhu_hhu_hhu_def conv_hhu_Nil EOF_def)

lemma ignorable_back:
  "scan_triplets k f = Some (ps, r) \<Longrightarrow> ignorable r t \<Longrightarrow> ignorable f t"
  by (cases f) (auto simp add: ignorable_def dest: scan_triplets_Nil)

lemma scan_triplets_append:
  "scan_triplets k f = Some (ps, r) \<Longrightarrow> ignorable r t
     \<Longrightarrow> scan_triplets k (f @ t) = Some (ps, r @ t)"
proof (induction k arbitrary: f ps)
  case 0
  then show ?case by simp
next
  case (Suc k)
  from Suc.prems(1) obtain sr sg sb f' ps' where
    s: "fscanf_hhu_hhu_hhu f 0 0 0 = (3, sr, sg, sb, f')"
    and k: "scan_triplets k f' = Some (ps', r)" and ps: "ps = (sr, sg, sb) # ps'"
    by (auto split: prod.splits if_splits option.splits)
  from fscanf_hhu_hhu_hhu_append [OF s ignorable_back [OF k Suc.prems(2)]]
    Suc.IH [OF k Suc.prems(2)] ps
  show ?case by simp
qed

lemma fscanf_2s_append:
  assumes "take 2 (dropWhile isspace f) = ''P3''"
  shows "take 2 (dropWhile isspace (f @ t)) = ''P3''"
    and "drop 2 (dropWhile isspace (f @ t)) = drop 2 (dropWhile isspace f) @ t"
proof -
  from assms have len: "length (dropWhile isspace f) \<ge> 2"
    by (cases "dropWhile isspace f"; cases "tl (dropWhile isspace f)") auto
  then have ne: "dropWhile isspace f \<noteq> []"
    by (cases "dropWhile isspace f") simp_all
  note len
  then show "take 2 (dropWhile isspace (f @ t)) = ''P3''"
    and "drop 2 (dropWhile isspace (f @ t)) = drop 2 (dropWhile isspace f) @ t"
    using assms by (simp_all add: skip_space_append [OF ne])
qed

lemma header_append:
  assumes "header f = Some (w, h, mc, f3)" and "ignorable f3 t"
  shows "header (f @ t) = Some (w, h, mc, f3 @ t)"
proof -
  from assms(1) obtain f2 where
    tag: "take 2 (dropWhile isspace f) = ''P3''"
    and dims: "fscanf_i_i (drop 2 (dropWhile isspace f)) 0 0 = (2, w, h, f2)"
    and mx: "fscanf_i f2 0 = (1, mc, f3)"
    by (auto simp add: header_Some_iff)
  have "ignorable f2 t"
    using mx by (cases f2) (auto simp add: ignorable_def fscanf_i_def conv_i_Nil EOF_def)
  from fscanf_i_i_append [OF dims this] fscanf_i_append [OF mx assms(2)] fscanf_2s_append [OF tag, of t]
  show ?thesis
    by (auto simp add: header_Some_iff)
qed

subsection \<open>Decimal numerals\<close>

declare show_dec.simps [simp del]

lemma digit_char:
  assumes "0 \<le> d" and "d \<le> 9"
  shows "isdigit (char_of (48 + d))" and "digit_value (char_of (48 + d)) = d"
    and "d \<noteq> 0 \<Longrightarrow> char_of (48 + d) \<noteq> CHR ''0''"
proof -
  have m: "(48 + d) mod 256 = 48 + d" using assms by simp
  have i: "(of_char (char_of (48 + d)) :: int) = 48 + d" by (simp add: m)
  have "int (of_char (char_of (48 + d))) = 48 + d"
    using i by (simp add: of_nat_of_char)
  then show "isdigit (char_of (48 + d))"
    using assms by (simp add: isdigit_def)
  show "digit_value (char_of (48 + d)) = d"
    using assms by (simp add: digit_value_def Let_def i)
  show "char_of (48 + d) \<noteq> CHR ''0''" if "d \<noteq> 0"
  proof
    assume "char_of (48 + d) = CHR ''0''"
    then have "(of_char (char_of (48 + d)) :: int) = of_char CHR ''0''" by simp
    with i that show False by simp
  qed
qed

lemma number_value_snoc:
  "number_value b (ds @ [c]) = number_value b ds * b + digit_value c"
  by (simp add: number_value_def)

lemma show_dec_props:
  "0 \<le> n \<Longrightarrow>
     show_dec n \<noteq> [] \<and> list_all isdigit (show_dec n) \<and> number_value 10 (show_dec n) = n
     \<and> (0 < n \<longrightarrow> hd (show_dec n) \<noteq> CHR ''0'')"
proof (induction n rule: show_dec.induct)
  case (1 n)
  show ?case
  proof (cases "n < 10")
    case True
    with "1.prems" digit_char [of n] show ?thesis
      by (subst (1 2 3 4) show_dec.simps) (auto simp add: number_value_def)
  next
    case False
    then have q: "0 \<le> n div 10" "0 < n div 10" and r: "0 \<le> n mod 10" "n mod 10 \<le> 9"
      by simp_all
    from "1.IH" [OF False q(1)] q(2)
    have ih: "show_dec (n div 10) \<noteq> []" "list_all isdigit (show_dec (n div 10))"
      "number_value 10 (show_dec (n div 10)) = n div 10" "hd (show_dec (n div 10)) \<noteq> CHR ''0''"
      by simp_all
    have s: "show_dec n = show_dec (n div 10) @ [char_of (48 + n mod 10)]"
      using False by (subst show_dec.simps) simp
    show ?thesis
      unfolding s using ih digit_char [OF r] 
      by (simp add: number_value_snoc)
  qed
qed

lemma show_dec_0: "show_dec 0 = ''0''"
  by code_simp

lemma space_not_token_char: "isspace c \<Longrightarrow> \<not> token_char c"
  by (auto simp add: isspace_def token_char_def isxdigit_def isdigit_def)

lemma ends_token_not_digit: "ends_token rest \<Longrightarrow> rest = [] \<or> \<not> isdigit (hd rest)"
  by (auto simp add: ends_token_def dest: digit_not_space)

lemma ends_token_white: "white ws \<Longrightarrow> ws \<noteq> [] \<Longrightarrow> ends_token (ws @ x)"
  by (cases ws) (auto simp add: ends_token_def white_def)

lemma show_dec_token: 
  assumes "0 \<le> n"
  shows "sample_token (show_dec n)" and "scan_sign (show_dec n) = (False, show_dec n)"
proof -
  from show_dec_props [OF assms] obtain c ds where
    s: "show_dec n = c # ds" and d: "list_all isdigit (c # ds)"
    by (cases "show_dec n") auto
  then have c: "c \<noteq> CHR ''-''" "c \<noteq> CHR ''+''" by auto
  with s show "scan_sign (show_dec n) = (False, show_dec n)"
    by (simp add: scan_sign_def)
  with s d show "sample_token (show_dec n)"
    by (simp add: sample_token_def)
qed

lemma stored_sample_show_dec:
  assumes "0 \<le> n" and "n < 2 ^ 64"
  shows "stored_sample (show_dec n) = of_int n"
  using assms show_dec_token(2) [OF assms(1)] show_dec_props [OF assms(1)]
  by (simp add: stored_sample_def strtoul_def uchar_of_ulong_def)

lemma conv_hhu_decimal:
  assumes "white sep" and "0 \<le> n" and "n \<le> 255" and "ends_token rest"
  shows "conv_hhu (sep @ show_dec n @ rest) = Converted (of_int n) rest"
  using conv_hhu_token [OF assms(1) show_dec_token(1) [OF assms(2)] ends_token_not_digit [OF assms(4)]]
    stored_sample_show_dec [OF assms(2)] assms(3)
  by simp

lemma number_i_decimal:
  assumes "0 \<le> n" and "ends_token rest"
  shows "number_i (show_dec n @ rest) = Converted (False, n) rest"
proof (cases "n = 0")
  case True
  show ?thesis
  proof (cases rest)
    case Nil
    with True show ?thesis by (simp add: show_dec_0 number_i_def scan_sign_def)
  next
    case (Cons c r)
    with assms(2) have c: "\<not> token_char c"
      by (simp add: ends_token_def space_not_token_char)
    from not_token_char [OF c] True Cons show ?thesis
      by (simp add: show_dec_0 number_i_def scan_sign_def number_value_def)
  qed
next
  case False
  with assms(1) have pos: "0 < n" by simp
  from show_dec_props [OF assms(1)] pos obtain c ds where
    s: "show_dec n = c # ds" and d: "list_all isdigit (c # ds)" and c0: "c \<noteq> CHR ''0''"
    and v: "number_value 10 (c # ds) = n"
    by (cases "show_dec n") auto
  then have c: "c \<noteq> CHR ''-''" "c \<noteq> CHR ''+''" "isdigit c" by auto
  from digits_then_rest [OF d ends_token_not_digit [OF assms(2)]]
  have t: "takeWhile isdigit (c # ds @ rest) = c # ds" "dropWhile isdigit (c # ds @ rest) = rest"
    by simp_all
  show ?thesis
    unfolding s using c c0 v t
    by (simp add: number_i_def scan_sign_def del: takeWhile.simps dropWhile.simps)
qed

lemma conv_i_decimal:
  assumes "white sep" and "0 \<le> n" and "n \<le> INT_MAX" and "ends_token rest"
  shows "conv_i (sep @ show_dec n @ rest) = Converted n rest"
proof -
  from show_dec_props [OF assms(2)] obtain c ds where
    s: "show_dec n = c # ds" and d: "isdigit c"
    by (cases "show_dec n") auto
  have g: "dropWhile isspace (sep @ show_dec n @ rest) = c # (ds @ rest)"
    using dropWhile_white [OF assms(1) digit_not_space [OF d], of "ds @ rest"] s by simp
  have n: "number_i (c # (ds @ rest)) = Converted (False, n) rest"
    using number_i_decimal [OF assms(2,4)] s by simp
  have "int_of_long (strtol False n) = n"
    using assms(2,3) by (simp add: strtol_def int_of_long_def INT_MAX_def)
  then show ?thesis
    by (simp add: conv_i_def g n)
qed

lemma pixels_text_ends_token:
  "list_all pixel_ok px \<Longrightarrow> ends_token trail \<Longrightarrow> ends_token (pixels_text px @ trail)"
proof (cases px)
  case Nil
  then show "ends_token trail \<Longrightarrow> ends_token (pixels_text px @ trail)" by simp
next
  case (Cons q px')
  obtain sr r sg g sb b where q: "q = ((sr, r), (sg, g), (sb, b))"
    by (cases q) auto
  assume "list_all pixel_ok px"
  with Cons q have "white sr" "sr \<noteq> []" by (simp_all add: separator_def)
  from ends_token_white [OF this] Cons q
  show "ends_token (pixels_text px @ trail)" by simp
qed

lemma fscanf_three_decimals:
  assumes "pixel_ok ((sr, r), (sg, g), (sb, b))" and "ends_token rest"
  shows "fscanf_hhu_hhu_hhu (sr @ show_dec r @ sg @ show_dec g @ sb @ show_dec b @ rest) r0 g0 b0
           = (3, of_int r, of_int g, of_int b, rest)"
proof -
  from assms(1) have ok: "white sr" "0 \<le> r" "r \<le> 255" "white sg" "sg \<noteq> []" "0 \<le> g" "g \<le> 255"
    "white sb" "sb \<noteq> []" "0 \<le> b" "b \<le> 255"
    by (simp_all add: separator_def)
  have 1: "conv_hhu (sr @ show_dec r @ sg @ show_dec g @ sb @ show_dec b @ rest)
             = Converted (of_int r) (sg @ show_dec g @ sb @ show_dec b @ rest)"
    by (rule conv_hhu_decimal [OF ok(1,2,3) ends_token_white [OF ok(4,5)]])
  have 2: "conv_hhu (sg @ show_dec g @ sb @ show_dec b @ rest)
             = Converted (of_int g) (sb @ show_dec b @ rest)"
    by (rule conv_hhu_decimal [OF ok(4,6,7) ends_token_white [OF ok(8,9)]])
  have 3: "conv_hhu (sb @ show_dec b @ rest) = Converted (of_int b) rest"
    by (rule conv_hhu_decimal [OF ok(8,10,11) assms(2)])
  show ?thesis
    by (simp add: fscanf_hhu_hhu_hhu_def 1 2 3 conv_hhu_skips_space)
qed

lemma scan_triplets_pixels_text:
  "list_all pixel_ok px \<Longrightarrow> ends_token trail
     \<Longrightarrow> scan_triplets (length px) (pixels_text px @ trail) = Some (map pixel_bytes px, trail)"
proof (induction px)
  case Nil
  then show ?case by simp
next
  case (Cons q px)
  obtain sr r sg g sb b where q: "q = ((sr, r), (sg, g), (sb, b))"
    by (cases q) auto
  from Cons.prems have ok: "pixel_ok ((sr, r), (sg, g), (sb, b))" and rest: "list_all pixel_ok px"
    by (simp_all add: q)
  from fscanf_three_decimals [OF ok pixels_text_ends_token [OF rest Cons.prems(2)]]
    Cons.IH [OF rest Cons.prems(2)]
  show ?case by (simp add: q)
qed

lemma header_p3_text:
  assumes "white lead" and "white s1" and "white s2" and "s2 \<noteq> []" and "white s3" and "s3 \<noteq> []"
    and "0 \<le> w" and "w \<le> INT_MAX" and "0 \<le> h" and "h \<le> INT_MAX"
    and "0 \<le> mc" and "mc \<le> INT_MAX" and "ends_token rest"
  shows "header (lead @ ''P3'' @ s1 @ show_dec w @ s2 @ show_dec h @ s3 @ show_dec mc @ rest)
           = Some (w, h, mc, rest)"
proof -
  let ?f1 = "s1 @ show_dec w @ s2 @ show_dec h @ s3 @ show_dec mc @ rest"
  have d: "dropWhile isspace (lead @ ''P3'' @ ?f1) = ''P3'' @ ?f1"
    using dropWhile_white [OF assms(1), of "CHR ''P''" "CHR ''3'' # ?f1"] by simp
  have 1: "conv_i ?f1 = Converted w (s2 @ show_dec h @ s3 @ show_dec mc @ rest)"
    by (rule conv_i_decimal [OF assms(2,7,8) ends_token_white [OF assms(3,4)]])
  have 2: "conv_i (s2 @ show_dec h @ s3 @ show_dec mc @ rest)
             = Converted h (s3 @ show_dec mc @ rest)"
    by (rule conv_i_decimal [OF assms(3,9,10) ends_token_white [OF assms(5,6)]])
  have 3: "conv_i (s3 @ show_dec mc @ rest) = Converted mc rest"
    by (rule conv_i_decimal [OF assms(5,11,12,13)])
  show ?thesis
    unfolding header_Some_iff d
    by (simp add: fscanf_i_i_def fscanf_i_def 1 2 3 conv_i_skips_space)
qed

lemma factors_in_range:
  assumes "0 < w" and "0 < h" and "w * h * 4 \<le> INT_MAX"
  shows "w \<le> INT_MAX" and "h \<le> INT_MAX"
proof -
  define n where "n = w * h"
  have 1: "w \<le> n" unfolding n_def using assms(1,2) mult_left_mono [of 1 h w] by simp
  have 2: "h \<le> n" unfolding n_def using assms(1,2) mult_right_mono [of 1 w h] by simp
  have 3: "n * 4 \<le> INT_MAX" using assms(3) by (simp add: n_def)
  have 4: "0 \<le> n" unfolding n_def using assms(1,2) by simp
  from 1 3 4 show "w \<le> INT_MAX" by linarith
  from 2 3 4 show "h \<le> INT_MAX" by linarith
qed

lemma valid_file_is_decoded:
  assumes "valid_p3 lead s1 w s2 h s3 mc px trail"
    and "fopen e p = Some (p3_text lead s1 w s2 h s3 mc px trail)"
    and "heap_grants e 0 (w * h * 4)" and "heap_grants e 1 sizeof_PPMFile"
  shows "ppm_read_file e p =
           Some (Inr \<lparr>path = p, magic_number = ''P3'', width = w, height = h, max_color = mc,
                      data = concat (map (cell \<circ> pixel_bytes) px)\<rparr>)"
proof -
  from assms(1) have v: "white lead" "white s1" "white s2" "s2 \<noteq> []" "white s3" "s3 \<noteq> []"
    "0 < w" "0 < h" "w * h * 4 \<le> INT_MAX" "0 \<le> mc" "mc \<le> INT_MAX"
    "list_all pixel_ok px" "int (length px) = w * h" "ends_token trail"
    by (simp_all add: valid_p3_def separator_def)
  have wh: "w \<le> INT_MAX" "h \<le> INT_MAX"
    using factors_in_range [OF v(7,8,9)] .
  have hd: "header (p3_text lead s1 w s2 h s3 mc px trail)
              = Some (w, h, mc, pixels_text px @ trail)"
    unfolding p3_text_def
    using header_p3_text [OF v(1-6) _ wh(1) _ wh(2) v(10,11)
        pixels_text_ends_token [OF v(12,14)]] v(7,8)
    by simp
  have pos: "0 \<le> w * h" using v(7,8) by simp
  have rng: "in_int_range (w * h)" "in_int_range (w * h * 4)"
    using in_range_of_product [OF pos v(9)] by simp_all
  have n: "nat (w * h) = length px" using v(13) by simp
  have sc: "scan_triplets (nat (w * h)) (pixels_text px @ trail)
              = Some (map pixel_bytes px, trail)"
    unfolding n by (rule scan_triplets_pixels_text [OF v(12,14)])
  show ?thesis
    using ppm_read_stream_with_header [OF hd, of e p] rng pos sc assms(2,3,4)
    by (simp add: ppm_read_file_def)
qed

subsection \<open>Pixel sections given by their tokens\<close>

lemma tokens_text_not_digit:
  assumes "list_all tokens_ok px" and "rest = [] \<or> \<not> isdigit (hd rest)"
  shows "tokens_text px @ rest = [] \<or> \<not> isdigit (hd (tokens_text px @ rest))"
proof (cases px)
  case Nil
  with assms(2) show ?thesis by simp
next
  case (Cons q px')
  obtain sr tr sg tg sb tb where q: "q = ((sr, tr), (sg, tg), (sb, tb))"
    by (cases q) auto
  from assms(1) Cons q have "white sr" "sr \<noteq> []" by (simp_all add: separator_def)
  from white_then_not_digit [OF this, of "tr @ sg @ tg @ sb @ tb @ tokens_text px' @ rest"] Cons q
  show ?thesis by simp
qed

lemma scan_triplets_tokens_text:
  "list_all tokens_ok px \<Longrightarrow> rest = [] \<or> \<not> isdigit (hd rest)
     \<Longrightarrow> scan_triplets (length px) (tokens_text px @ rest) = Some (map stored_pixel px, rest)"
proof (induction px)
  case Nil
  then show ?case by simp
next
  case (Cons q px)
  obtain sr tr sg tg sb tb where q: "q = ((sr, tr), (sg, tg), (sb, tb))"
    by (cases q) auto
  from Cons.prems(1) have ok: "white sr" "sample_token tr" "white sg" "sg \<noteq> []"
    "sample_token tg" "white sb" "sb \<noteq> []" "sample_token tb"
    and others: "list_all tokens_ok px"
    by (simp_all add: q separator_def)
  from fscanf_three_tokens [OF ok tokens_text_not_digit [OF others Cons.prems(2)]]
    Cons.IH [OF others Cons.prems(2)]
  show ?case by (simp add: q)
qed

lemma token_file_is_decoded:
  assumes "fopen e p = Some f" and "header f = Some (w, h, mc, tokens_text px @ rest)"
    and "list_all tokens_ok px" and "int (length px) = w * h" and "w * h * 4 \<le> INT_MAX"
    and "rest = [] \<or> \<not> isdigit (hd rest)"
    and "heap_grants e 0 (w * h * 4)" and "heap_grants e 1 sizeof_PPMFile"
  shows "ppm_read_file e p =
           Some (Inr \<lparr>path = p, magic_number = ''P3'', width = w, height = h, max_color = mc,
                      data = concat (map (cell \<circ> stored_pixel) px)\<rparr>)"
proof -
  have pos: "0 \<le> w * h" using assms(4) [symmetric] by simp
  have rng: "in_int_range (w * h)" "in_int_range (w * h * 4)"
    using in_range_of_product [OF pos assms(5)] by simp_all
  have n: "nat (w * h) = length px" using assms(4) by simp
  have sc: "scan_triplets (nat (w * h)) (tokens_text px @ rest) = Some (map stored_pixel px, rest)"
    unfolding n by (rule scan_triplets_tokens_text [OF assms(3,6)])
  show ?thesis
    using ppm_read_stream_with_header [OF assms(2), of e p] rng pos sc assms(1,7,8)
    by (simp add: ppm_read_file_def)
qed
section \<open>The decoder's results\<close>

text \<open>
  Every image the decoder returns: its buffer has exactly width * height * 4 bytes; the
  file has a header with these dimensions, its pixel section yields width * height
  triplets, and the buffer is their cells in order; read back, every pixel has alpha 255
  and the triplet scanned for it.
\<close>

lemma decoded_image_layout:
  assumes "fopen e p = Some f" and "ppm_read_file e p = Some (Inr img)"
  shows "length (data img) = nat (width img * height img * 4)
         \<and> (\<exists>mc f3 ps r.
               header f = Some (width img, height img, mc, f3)
               \<and> scan_triplets (nat (width img * height img)) f3 = Some (ps, r)
               \<and> data img = concat (map cell ps)
               \<and> (\<forall>i < nat (width img * height img).
                     alpha_at (data img) i = 255 \<and> sample_at (data img) i = ps ! i))"
proof -
  from ppm_read_file_Inr [OF assms] obtain mc f3 ps r where
    h: "header f = Some (width img, height img, mc, f3)"
    and pos: "0 \<le> width img * height img"
    and sc: "scan_triplets (nat (width img * height img)) f3 = Some (ps, r)"
    and img: "img = \<lparr>path = p, magic_number = ''P3'', width = width img, height = height img,
                     max_color = mc, data = concat (map cell ps)\<rparr>"
    by blast
  from img have d: "data img = concat (map cell ps)"
    by (cases img) simp
  have n: "length ps = nat (width img * height img)"
    using scan_triplets_length [OF sc] .
  have len: "length (data img) = nat (width img * height img * 4)"
    using pos by (simp add: d length_concat_cells n nat_mult_distrib)
  have cells: "\<forall>i < nat (width img * height img).
                 alpha_at (data img) i = 255 \<and> sample_at (data img) i = ps ! i"
    using cells_alpha_sample [of _ ps] by (simp add: d n)
  from len h sc d cells show ?thesis by blast
qed

text \<open>
  C1.  A well-formed file of width \<open>w\<close> and height \<open>h\<close>, with both allocations granted, is
  decoded to an image with these dimensions whose buffer is the cells of its pixels in
  order, each cell holding 255 (alpha), blue, green, red at offsets 0 to 3.  Every image
  the decoder returns, for whatever file, has a buffer of exactly width * height * 4
  bytes in which every pixel reads back with alpha 255 and the triplet scanned for it.
  The file \<^verbatim>\<open>P3 / 2 1 / 255 / 255 0 0 0 255 0\<close> decodes to the bytes 255 0 0 255 255 0 255 0.
\<close>

theorem decoded_buffer_layout:
  "(valid_p3 lead s1 w s2 h s3 mc px trail
      \<and> fopen e p = Some (p3_text lead s1 w s2 h s3 mc px trail)
      \<and> heap_grants e 0 (w * h * 4) \<and> heap_grants e 1 sizeof_PPMFile
    \<longrightarrow> ppm_read_file e p =
          Some (Inr \<lparr>path = p, magic_number = ''P3'', width = w, height = h, max_color = mc,
                     data = concat (map (cell \<circ> pixel_bytes) px)\<rparr>)
        \<and> length (concat (map (cell \<circ> pixel_bytes) px)) = nat (w * h * 4))
   \<and> (\<forall>f img. fopen e p = Some f \<and> ppm_read_file e p = Some (Inr img) \<longrightarrow>
         length (data img) = nat (width img * height img * 4)
         \<and> (\<exists>m f3 ps r.
               header f = Some (width img, height img, m, f3)
               \<and> scan_triplets (nat (width img * height img)) f3 = Some (ps, r)
               \<and> data img = concat (map cell ps)
               \<and> (\<forall>i < nat (width img * height img).
                     alpha_at (data img) i = 255 \<and> sample_at (data img) i = ps ! i)))
   \<and> cell (r, g, b) = [255, b, g, r]
   \<and> map_option (map_sum id data) (ppm_read_file demo_disk ''rg.ppm'')
       = Some (Inr [255, 0, 0, 255, 255, 0, 255, 0])"
proof -
  have valid: "ppm_read_file e p =
          Some (Inr \<lparr>path = p, magic_number = ''P3'', width = w, height = h, max_color = mc,
                     data = concat (map (cell \<circ> pixel_bytes) px)\<rparr>)
        \<and> length (concat (map (cell \<circ> pixel_bytes) px)) = nat (w * h * 4)"
    if v: "valid_p3 lead s1 w s2 h s3 mc px trail"
      and f: "fopen e p = Some (p3_text lead s1 w s2 h s3 mc px trail)"
      and g: "heap_grants e 0 (w * h * 4)" "heap_grants e 1 sizeof_PPMFile"
  proof -
    from v have n: "int (length px) = w * h" by (simp add: valid_p3_def)
    have "length (concat (map (cell \<circ> pixel_bytes) px)) = 4 * length px"
      using length_concat_cells [of "map pixel_bytes px"] by simp
    also have "\<dots> = nat (w * h * 4)" using n by (simp add: nat_mult_distrib)
    finally show ?thesis
      using valid_file_is_decoded [OF v f g] by simp
  qed
  have ex: "map_option (map_sum id data) (ppm_read_file demo_disk ''rg.ppm'')
             = Some (Inr [255, 0, 0, 255, 255, 0, 255, 0])"
    by (simp add: read_rg red_green_def)
  from valid decoded_image_layout [of e p] ex show ?thesis
    by (simp del: map_map)
qed

theorem decoded_buffer_layout_witness:
  "valid_p3 [] ''\<newline>'' 2 '' '' 1 ''\<newline>'' 255 rg_pixels ''\<newline>''
   \<and> p3_text [] ''\<newline>'' 2 '' '' 1 ''\<newline>'' 255 rg_pixels ''\<newline>'' = red_green_ppm
   \<and> ppm_read_file demo_disk ''rg.ppm'' = Some (Inr red_green)
   \<and> length (data red_green) = nat (width red_green * height red_green * 4)
   \<and> data red_green = [255, 0, 0, 255, 255, 0, 255, 0]
   \<and> alpha_at (data red_green) 0 = 255 \<and> sample_at (data red_green) 0 = (255, 0, 0)
   \<and> alpha_at (data red_green) 1 = 255 \<and> sample_at (data red_green) 1 = (0, 255, 0)"
proof -
  have v: "valid_p3 [] ''\<newline>'' 2 '' '' 1 ''\<newline>'' 255 rg_pixels ''\<newline>''" by code_simp
  have t: "p3_text [] ''\<newline>'' 2 '' '' 1 ''\<newline>'' 255 rg_pixels ''\<newline>'' = red_green_ppm"
    by code_simp
  have f: "fopen demo_disk ''rg.ppm''
             = Some (p3_text [] ''\<newline>'' 2 '' '' 1 ''\<newline>'' 255 rg_pixels ''\<newline>'')"
    unfolding t by code_simp
  have f': "fopen demo_disk ''rg.ppm'' = Some red_green_ppm" by code_simp
  have g: "heap_grants demo_disk 0 (2 * 1 * 4)" "heap_grants demo_disk 1 sizeof_PPMFile"
    by code_simp+
  have c: "concat (map (cell \<circ> pixel_bytes) rg_pixels) = [255, 0, 0, 255, 255, 0, 255, 0]"
    by code_simp
  note inst = decoded_buffer_layout [of "[]" "''\<newline>''" 2 "'' ''" 1 "''\<newline>''" 255 rg_pixels
      "''\<newline>''" demo_disk "''rg.ppm''"]
  from inst v f g have r: "ppm_read_file demo_disk ''rg.ppm'' = Some (Inr red_green)"
    by (simp add: c red_green_def)
  from inst f' r have "length (data red_green) = nat (width red_green * height red_green * 4)"
    by blast
  moreover have "data red_green = [255, 0, 0, 255, 255, 0, 255, 0]"
    by (simp add: red_green_def)
  moreover have "alpha_at (data red_green) 0 = 255 \<and> sample_at (data red_green) 0 = (255, 0, 0)
   \<and> alpha_at (data red_green) 1 = 255 \<and> sample_at (data red_green) 1 = (0, 255, 0)"
    by (simp add: red_green_def alpha_at_def sample_at_def)
  ultimately show ?thesis using v t r by blast
qed

text \<open>
  C4, as amended.  A file with a header, dimensions whose product fits and a granted
  buffer, but fewer than width * height triplets that convert: \<^verbatim>\<open>ppm_read_file\<close> returns
  \<^verbatim>\<open>NULL\<close> through the pixel data error, whose line on \<^verbatim>\<open>stderr\<close> is the fixed text
  \<^verbatim>\<open>Error reading pixel data.\<close> and names no pixel; no image is built, and a load request
  leaves the active image as it was.
\<close>

theorem short_pixel_section_is_pixel_error:
  assumes "fopen e p = Some f" and "header f = Some (w, h, mc, f3)"
    and "0 \<le> w * h" and "w * h * 4 \<le> INT_MAX" and "heap_grants e 0 (w * h * 4)"
    and "scan_triplets (nat (w * h)) f3 = None"
  shows "ppm_read_file e p = Some (Inl Bad_Pixel_Data)
         \<and> message Bad_Pixel_Data = ''Error reading pixel data.\<newline>''
         \<and> update_state e p cur = Some (False, cur, [Stderr ''Error reading pixel data.\<newline>''])"
proof -
  have r: "in_int_range (w * h)" "in_int_range (w * h * 4)"
    using in_range_of_product [OF assms(3,4)] by simp_all
  have "ppm_read_stream e p f = Some (Inl Bad_Pixel_Data)"
    using ppm_read_stream_with_header [OF assms(2), of e p] r assms(3,5,6) by simp
  with assms(1) have "ppm_read_file e p = Some (Inl Bad_Pixel_Data)"
    by (simp add: ppm_read_file_def)
  then show ?thesis by (simp add: update_state_def)
qed

theorem short_pixel_section_is_pixel_error_witness:
  "header truncated_ppm = Some (2, 1, 255, '' 255 0 0 0 255'')
   \<and> scan_triplets (nat (2 * 1)) '' 255 0 0 0 255'' = None
   \<and> ppm_read_file demo_disk ''cut.ppm'' = Some (Inl Bad_Pixel_Data)
   \<and> message Bad_Pixel_Data = ''Error reading pixel data.\<newline>''
   \<and> update_state demo_disk ''cut.ppm'' (Some blue)
       = Some (False, Some blue, [Stderr ''Error reading pixel data.\<newline>''])"
proof -
  have f: "fopen demo_disk ''cut.ppm'' = Some truncated_ppm" by code_simp
  have h: "header truncated_ppm = Some (2, 1, 255, '' 255 0 0 0 255'')" by code_simp
  have s: "scan_triplets (nat (2 * 1)) '' 255 0 0 0 255'' = None" by code_simp
  have g: "heap_grants demo_disk 0 (2 * 1 * 4)" by code_simp
  from short_pixel_section_is_pixel_error [OF f h _ _ g s, of "Some blue"] h s
  show ?thesis by (simp add: INT_MAX_def)
qed

text \<open>
  C4 as stated fails: a file whose pixel 0 is incomplete and a file whose pixel 1 is
  incomplete end in the same error with the same line; the index is not in it.
\<close>

theorem pixel_error_names_no_index_counterexample:
  "header cut0_ppm = Some (2, 1, 255, '' 255 0'')
   \<and> scan_triplets 1 '' 255 0'' = None
   \<and> header truncated_ppm = Some (2, 1, 255, '' 255 0 0 0 255'')
   \<and> scan_triplets 1 '' 255 0 0 0 255'' = Some ([(255, 0, 0)], '' 0 255'')
   \<and> scan_triplets 2 '' 255 0 0 0 255'' = None
   \<and> ppm_read_file cut_disk ''cut0.ppm'' = Some (Inl Bad_Pixel_Data)
   \<and> ppm_read_file cut_disk ''cut.ppm'' = Some (Inl Bad_Pixel_Data)
   \<and> message Bad_Pixel_Data = ''Error reading pixel data.\<newline>''"
  by code_simp

text \<open>
  C5, as amended.  After the tag, the decoder converts two integers (white space, an
  optional sign, digits) as width and height.  Whenever the first or the second token is
  missing or does not start with a digit, that is whenever the count returned is not 2, it
  returns \<^verbatim>\<open>NULL\<close> through the dimension error; where both tokens are there, whatever their
  sign or value, it does not.  An image that is built has the two integers converted as its
  width and height; neither of them has to be positive.
\<close>

theorem dimensions_are_two_scanned_integers:
  assumes "fopen e p = Some f" and "take 2 (dropWhile isspace f) = ''P3''"
  shows "(\<not> two_int_tokens (drop 2 (dropWhile isspace f))
            \<longrightarrow> ppm_read_file e p = Some (Inl Bad_Dimensions))
       \<and> (fst (fscanf_i_i (drop 2 (dropWhile isspace f)) 0 0) \<noteq> 2
            \<longrightarrow> ppm_read_file e p = Some (Inl Bad_Dimensions))
       \<and> (two_int_tokens (drop 2 (dropWhile isspace f))
            \<longrightarrow> ppm_read_file e p \<noteq> Some (Inl Bad_Dimensions))
       \<and> (\<forall>img. ppm_read_file e p = Some (Inr img) \<longrightarrow>
             (\<exists>r. fscanf_i_i (drop 2 (dropWhile isspace f)) 0 0
                      = (2, width img, height img, r)))"
proof -
  let ?f1 = "drop 2 (dropWhile isspace f)"
  obtain n a b r where s: "fscanf_i_i ?f1 0 0 = (n, a, b, r)"
    by (cases "fscanf_i_i ?f1 0 0") auto
  have bad: "ppm_read_file e p = Some (Inl Bad_Dimensions)" if "fst (fscanf_i_i ?f1 0 0) \<noteq> 2"
  proof -
    from that s have "n \<noteq> 2" by simp
    with s fscanf_2s_P3 [OF assms(2)] assms(1) show ?thesis
      by (simp add: ppm_read_file_def ppm_read_stream_def char_at_def)
  qed
  have fine: "ppm_read_file e p \<noteq> Some (Inl Bad_Dimensions)" if "fst (fscanf_i_i ?f1 0 0) = 2"
  proof -
    from that s have "n = 2" by simp
    with s fscanf_2s_P3 [OF assms(2)] assms(1) show ?thesis
      by (auto simp add: ppm_read_file_def ppm_read_stream_def char_at_def
          split: prod.splits option.splits if_splits)
  qed
  have good: "\<exists>r. fscanf_i_i ?f1 0 0 = (2, width img, height img, r)"
    if "ppm_read_file e p = Some (Inr img)" for img
  proof -
    from ppm_read_file_Inr [OF assms(1) that] obtain mc f3 where
      "header f = Some (width img, height img, mc, f3)"
      by blast
    then show ?thesis by (auto simp add: header_Some_iff)
  qed
  from bad fine good fscanf_i_i_count [of ?f1 0 0] show ?thesis
    by blast
qed

theorem dimensions_are_two_scanned_integers_witness:
  "ppm_read_file dims_disk ''nodims.ppm'' = Some (Inl Bad_Dimensions)
   \<and> ppm_read_file dims_disk ''neg.ppm'' = Some (Inr minus_one_image)
   \<and> two_int_tokens (drop 2 (dropWhile isspace negative_ppm))
   \<and> ppm_read_file dims_disk ''neg.ppm'' \<noteq> Some (Inl Bad_Dimensions)
   \<and> (\<exists>r. fscanf_i_i (drop 2 (dropWhile isspace negative_ppm)) 0 0
            = (2, width minus_one_image, height minus_one_image, r))"
proof -
  have f: "fopen dims_disk ''nodims.ppm'' = Some nodims_ppm" by code_simp
  have t: "take 2 (dropWhile isspace nodims_ppm) = ''P3''" by code_simp
  have n: "fst (fscanf_i_i (drop 2 (dropWhile isspace nodims_ppm)) 0 0) \<noteq> 2" by code_simp
  have f': "fopen dims_disk ''neg.ppm'' = Some negative_ppm" by code_simp
  have t': "take 2 (dropWhile isspace negative_ppm) = ''P3''" by code_simp
  have two: "two_int_tokens (drop 2 (dropWhile isspace negative_ppm))" by code_simp
  have r: "ppm_read_file dims_disk ''neg.ppm'' = Some (Inr minus_one_image)" by code_simp
  from dimensions_are_two_scanned_integers [OF f t] n
    dimensions_are_two_scanned_integers [OF f' t'] two r
  show ?thesis by blast
qed

text \<open>
  C5 as stated fails: the dimensions \<^verbatim>\<open>-1 -1\<close> are accepted, and the image built has width
  and height \<open>-1\<close>.
\<close>

theorem negative_dimensions_counterexample:
  "ppm_read_file dims_disk ''neg.ppm'' = Some (Inr minus_one_image)
   \<and> width minus_one_image = - 1 \<and> height minus_one_image = - 1
   \<and> \<not> 0 < width minus_one_image \<and> \<not> 0 < height minus_one_image"
  by code_simp

text \<open>
  C6.  A file whose first two bytes after leading white space are not \<^verbatim>\<open>P3\<close> (the stream
  ends before two bytes are read, or the tag differs): \<^verbatim>\<open>ppm_read_file\<close> returns \<^verbatim>\<open>NULL\<close>
  through the format error, before any buffer is allocated; a load request leaves the
  active image as it was.
\<close>

theorem wrong_tag_is_format_error:
  assumes "fopen e p = Some f" and "take 2 (dropWhile isspace f) \<noteq> ''P3''"
  shows "ppm_read_file e p = Some (Inl Not_P3)
         \<and> message Not_P3 = ''File is not in PPM P3 format.\<newline>''
         \<and> update_state e p cur = Some (False, cur, [Stderr (message Not_P3)])"
proof -
  obtain n magic r where s: "fscanf_2s f = (n, magic, r)"
    by (cases "fscanf_2s f") auto
  with assms(2) have "n \<noteq> 1 \<or> char_at magic 0 \<noteq> CHR ''P'' \<or> char_at magic 1 \<noteq> CHR ''3''"
    using fscanf_2s_tag by blast
  with s assms(1) have "ppm_read_file e p = Some (Inl Not_P3)"
    by (simp add: ppm_read_file_def ppm_read_stream_def)
  then show ?thesis by (simp add: update_state_def)
qed

theorem wrong_tag_is_format_error_witness:
  "ppm_read_file tag_disk ''p6.ppm'' = Some (Inl Not_P3)
   \<and> message Not_P3 = ''File is not in PPM P3 format.\<newline>''
   \<and> update_state tag_disk ''p6.ppm'' (Some blue)
       = Some (False, Some blue, [Stderr (message Not_P3)])
   \<and> ppm_read_file tag_disk ''empty.ppm'' = Some (Inl Not_P3)"
proof -
  have f: "fopen tag_disk ''p6.ppm'' = Some p6_ppm" by code_simp
  have t: "take 2 (dropWhile isspace p6_ppm) \<noteq> ''P3''" by code_simp
  have f': "fopen tag_disk ''empty.ppm'' = Some []" by code_simp
  have t': "take 2 (dropWhile isspace []) \<noteq> ''P3''" by simp
  from wrong_tag_is_format_error [OF f t, of "Some blue"] wrong_tag_is_format_error [OF f' t']
  show ?thesis by simp
qed

text \<open>
  C9.  Where the decoder returns an image and leaves \<open>r\<close> of the file unread: the header
  gives the image's width and height, and \<open>r\<close> is what stands behind the first
  width * height triplets of the pixel section, so exactly that many triplets were read.
  Whatever is appended behind the point where the decoder stopped changes neither the image
  nor the success: the appended bytes are left unread with \<open>r\<close>, and the longer file
  decodes to the same image.
\<close>

theorem trailing_bytes_are_ignored:
  assumes "ppm_read_stream e p f = Some (Inr (img, r))" and "ignorable r t"
  shows "ppm_read_stream e p (f @ t) = Some (Inr (img, r @ t))
         \<and> ppm_read_file (e\<lparr>fopen := (fopen e)(p \<mapsto> f @ t)\<rparr>) p = Some (Inr img)
         \<and> (\<exists>mc f3 ps.
               header f = Some (width img, height img, mc, f3)
               \<and> scan_triplets (nat (width img * height img)) f3 = Some (ps, r)
               \<and> length ps = nat (width img * height img))"
proof -
  from assms(1) ppm_read_stream_without_header [of f e p]
  obtain w h mc f3 where hd: "header f = Some (w, h, mc, f3)"
    by (cases "header f") auto
  from assms(1) ppm_read_stream_with_header [OF hd, of e p]
  obtain ps where rng: "in_int_range (w * h)" "in_int_range (w * h * 4)"
    and pos: "\<not> w * h < 0" and g0: "heap_grants e 0 (w * h * 4)"
    and sc: "scan_triplets (nat (w * h)) f3 = Some (ps, r)"
    and g1: "heap_grants e 1 sizeof_PPMFile"
    and img: "img = \<lparr>path = p, magic_number = ''P3'', width = w, height = h,
                      max_color = mc, data = concat (map cell ps)\<rparr>"
    by (auto split: if_splits option.splits)
  have hd': "header (f @ t) = Some (w, h, mc, f3 @ t)"
    by (rule header_append [OF hd ignorable_back [OF sc assms(2)]])
  have sc': "scan_triplets (nat (w * h)) (f3 @ t) = Some (ps, r @ t)"
    by (rule scan_triplets_append [OF sc assms(2)])
  have 1: "ppm_read_stream e' p (f @ t) = Some (Inr (img, r @ t))"
    if "heap_grants e' = heap_grants e" for e' :: env
    using ppm_read_stream_with_header [OF hd', of e' p] rng pos g0 g1 sc' img that by simp
  have 2: "header f = Some (width img, height img, mc, f3)"
    "scan_triplets (nat (width img * height img)) f3 = Some (ps, r)"
    using hd sc img by simp_all
  have 3: "ppm_read_file (e\<lparr>fopen := (fopen e)(p \<mapsto> f @ t)\<rparr>) p = Some (Inr img)"
    using 1 [of "e\<lparr>fopen := (fopen e)(p \<mapsto> f @ t)\<rparr>"] by (simp add: ppm_read_file_def)
  from 1 [of e] 2 3 scan_triplets_length [OF 2(2)] show ?thesis by blast
qed

theorem trailing_bytes_are_ignored_witness:
  "ppm_read_stream demo_disk ''b.ppm'' blue_ppm = Some (Inr (blue, []))
   \<and> ppm_read_stream demo_disk ''b.ppm'' (blue_ppm @ '' 7 # not a pixel'')
       = Some (Inr (blue, [] @ '' 7 # not a pixel''))
   \<and> ppm_read_file (demo_disk\<lparr>fopen := (fopen demo_disk)
         (''b.ppm'' \<mapsto> blue_ppm @ '' 7 # not a pixel'')\<rparr>) ''b.ppm'' = Some (Inr blue)
   \<and> ppm_read_stream demo_disk ''b.ppm'' (blue_ppm @ ''zz'') = Some (Inr (blue, ''zz''))
   \<and> ppm_read_stream demo_disk ''b.ppm'' ((blue_ppm @ ''zz'') @ ''99 0x'')
       = Some (Inr (blue, ''zz'' @ ''99 0x''))"
proof -
  have 1: "ppm_read_stream demo_disk ''b.ppm'' blue_ppm = Some (Inr (blue, []))"
    by code_simp
  have i1: "ignorable [] '' 7 # not a pixel''" by code_simp
  have 2: "ppm_read_stream demo_disk ''b.ppm'' (blue_ppm @ ''zz'') = Some (Inr (blue, ''zz''))"
    by code_simp
  have i2: "ignorable ''zz'' ''99 0x''" by code_simp
  from trailing_bytes_are_ignored [OF 1 i1] trailing_bytes_are_ignored [OF 2 i2] 1 2
  show ?thesis by blast
qed

text \<open>
  C10, as amended.  A file with a header of width \<open>w\<close>, height \<open>h\<close> and any declared maximum,
  followed by \<open>w * h\<close> pixels of three sample tokens each, every token an optional sign and
  decimal digits of any magnitude after white space: with both allocations granted, the
  decoder returns the image whose cells hold the bytes stored for the tokens.  No token
  makes it fail, whatever the declared maximum, and exactly \<open>w * h\<close> triplets are converted.
  A token of magnitude below \<open>2 ^ 64\<close> is stored reduced modulo 256 (\<^verbatim>\<open>-1\<close> gives 255,
  \<^verbatim>\<open>256\<close> gives 0); a token of larger magnitude is stored as 255, since the conversion
  saturates at \<^verbatim>\<open>ULONG_MAX\<close> before the byte is cut off.
\<close>

theorem out_of_range_samples_are_stored:
  assumes "fopen e p = Some f" and "header f = Some (w, h, mc, tokens_text px @ rest)"
    and "list_all tokens_ok px" and "int (length px) = w * h" and "w * h * 4 \<le> INT_MAX"
    and "rest = [] \<or> \<not> isdigit (hd rest)"
    and "heap_grants e 0 (w * h * 4)" and "heap_grants e 1 sizeof_PPMFile"
  shows "ppm_read_file e p =
           Some (Inr \<lparr>path = p, magic_number = ''P3'', width = w, height = h, max_color = mc,
                      data = concat (map (cell \<circ> stored_pixel) px)\<rparr>)
         \<and> scan_triplets (length px) (tokens_text px @ rest) = Some (map stored_pixel px, rest)
         \<and> (\<forall>t. sample_token t \<and> \<bar>token_value t\<bar> < 2 ^ 64
                 \<longrightarrow> uint (stored_sample t) = token_value t mod 256)
         \<and> (\<forall>t. sample_token t \<and> 2 ^ 64 \<le> \<bar>token_value t\<bar> \<longrightarrow> stored_sample t = 255)"
  using token_file_is_decoded [OF assms] scan_triplets_tokens_text [OF assms(3,6)]
    stored_sample_mod stored_sample_saturated
  by blast

theorem out_of_range_samples_are_stored_witness:
  "header wrap_ppm = Some (1, 1, 100, tokens_text wrap_pixels @ [])
   \<and> list_all tokens_ok wrap_pixels
   \<and> ppm_read_file sample_disk ''wrap.ppm'' = Some (Inr wrapped)
   \<and> data wrapped = concat (map (cell \<circ> stored_pixel) wrap_pixels)
   \<and> data wrapped = [255, 44, 0, 255]
   \<and> max_color wrapped = 100
   \<and> token_value ''-1'' = - 1 \<and> stored_sample ''-1'' = 255
   \<and> uint (stored_sample ''-1'') = token_value ''-1'' mod 256
   \<and> token_value ''256'' = 256 \<and> stored_sample ''256'' = 0
   \<and> token_value ''300'' = 300 \<and> stored_sample ''300'' = 44
   \<and> token_value ''-18446744073709551617'' = - (2 ^ 64) - 1
   \<and> stored_sample ''-18446744073709551617'' = 255"
proof -
  have f: "fopen sample_disk ''wrap.ppm'' = Some wrap_ppm" by code_simp
  have h: "header wrap_ppm = Some (1, 1, 100, tokens_text wrap_pixels @ [])" by code_simp
  have ok: "list_all tokens_ok wrap_pixels" by code_simp
  have n: "int (length wrap_pixels) = 1 * 1" by code_simp
  have g: "heap_grants sample_disk 0 (1 * 1 * 4)" "heap_grants sample_disk 1 sizeof_PPMFile"
    by code_simp+
  have c: "concat (map (cell \<circ> stored_pixel) wrap_pixels) = [255, 44, 0, 255]" by code_simp
  have t: "sample_token ''-1''" by code_simp
  have v: "\<bar>token_value ''-1''\<bar> < 2 ^ 64" by code_simp
  have s: "token_value ''-1'' = - 1 \<and> stored_sample ''-1'' = 255
           \<and> token_value ''256'' = 256 \<and> stored_sample ''256'' = 0
           \<and> token_value ''300'' = 300 \<and> stored_sample ''300'' = 44"
    by code_simp
  note inst = out_of_range_samples_are_stored [OF f h ok n _ _ g]
  have r: "ppm_read_file sample_disk ''wrap.ppm'' = Some (Inr wrapped)"
    using inst by (simp add: INT_MAX_def c wrapped_def)
  have m: "uint (stored_sample ''-1'') = token_value ''-1'' mod 256"
    using inst t v by (simp add: INT_MAX_def)
  have t': "sample_token ''-18446744073709551617''" by code_simp
  have v': "token_value ''-18446744073709551617'' = - (2 ^ 64) - 1" by code_simp
  have m': "stored_sample ''-18446744073709551617'' = 255"
    using inst t' v' by (simp add: INT_MAX_def)
  from h ok r m s c v' m' show ?thesis by (simp add: wrapped_def)
qed

text \<open>
  C10 as stated fails: the token \<^verbatim>\<open>18446744073709551616\<close> has the value \<open>2 ^ 64\<close>, which is
  0 modulo 256, and is stored as 255.
\<close>

theorem huge_sample_counterexample:
  "token_value ''18446744073709551616'' = 2 ^ 64
   \<and> token_value ''18446744073709551616'' mod 256 = 0
   \<and> fscanf_hhu_hhu_hhu '' 18446744073709551616 0 0'' 0 0 0 = (3, 255, 0, 0, [])
   \<and> ppm_read_file sample_disk ''huge.ppm'' = Some (Inr saturated)
   \<and> data saturated = [255, 0, 0, 255]"
  by code_simp

section \<open>The viewer's state machine\<close>

lemma render_releases_nothing:
  "sdl_render_once s file_opt = Some (t, returned) \<Longrightarrow> filter is_release t = []"
  by (auto simp add: sdl_render_once_def split: option.splits if_splits)








text \<open>
  C3.  A file drop whose decode fails: \<^verbatim>\<open>update_state\<close> returns \<open>false\<close> and leaves the
  active image as it was; the process stays alive in the same state (same image, same
  \<^verbatim>\<open>running\<close>); all it did is write the decoder's line on \<^verbatim>\<open>stderr\<close> and free the dropped
  path.  No image is released, the window is neither retitled nor resized, nothing is drawn.
\<close>

theorem failed_load_changes_nothing:
  assumes "ppm_read_file e file = Some (Inl err)"
  shows "update_state e file cur = Some (False, cur, [Stderr (message err)]) \<and>
         handle_event e s (SDL_DROPFILE file) v =
           Some (Alive (v\<lparr>trace := trace v @ [Stderr (message err), SDL_free file]\<rparr>))"
  using assms by (simp add: update_state_def handle_event_def)

theorem failed_load_changes_nothing_witness:
  "update_state demo_disk ''cut.ppm'' (Some blue)
     = Some (False, Some blue, [Stderr (message Bad_Pixel_Data)]) \<and>
   handle_event demo_disk sdl_works (SDL_DROPFILE ''cut.ppm'') (showing blue) =
     Some (Alive ((showing blue)
       \<lparr>trace := trace (showing blue)
                  @ [Stderr (message Bad_Pixel_Data), SDL_free ''cut.ppm'']\<rparr>))"
  by (rule failed_load_changes_nothing [OF read_cut])

text \<open>
  C7, as amended.  With no image, one call of \<^verbatim>\<open>sdl_render_once\<close> sets the draw colour to
  opaque blue (0, 0, 255, 255), clears the whole target and presents.  Every call that
  returns presents exactly once, as its last action.  A call with an image whose texture
  cannot be created or cannot be locked ends the process with \<^verbatim>\<open>exit(EXIT_FAILURE)\<close> and
  presents nothing; these are the only calls that do not return.
\<close>

theorem render_presents_once_unless_it_exits:
  "sdl_render_once s None =
     Some ([SDL_SetRenderDrawColor 0 0 255 255, SDL_RenderClear, SDL_RenderPresent], True)
   \<and> (sdl_render_once s file_opt = Some (t, True) \<longrightarrow>
        count_list t SDL_RenderPresent = 1 \<and> last t = SDL_RenderPresent)
   \<and> (sdl_render_once s file_opt = Some (t, False) \<longrightarrow>
        file_opt \<noteq> None \<and> count_list t SDL_RenderPresent = 0
        \<and> last t = Exit EXIT_FAILURE)
   \<and> (\<not> create_texture_ok s (width file) (height file) \<or> \<not> lock_texture_ok s \<longrightarrow>
        (\<exists>t'. sdl_render_once s (Some file) = Some (t', False)
              \<and> count_list t' SDL_RenderPresent = 0
              \<and> last t' = Exit EXIT_FAILURE
              \<and> EXIT_FAILURE \<noteq> EXIT_SUCCESS))
   \<and> (sdl_render_once s (Some file) = Some (t, False) \<longrightarrow>
        \<not> create_texture_ok s (width file) (height file) \<or> \<not> lock_texture_ok s)
   \<and> (create_texture_ok s (width file) (height file) \<and> lock_texture_ok s
        \<and> sdl_render_once s (Some file) \<noteq> None \<longrightarrow>
        (\<exists>t'. sdl_render_once s (Some file) = Some (t', True)
              \<and> count_list t' SDL_RenderPresent = 1 \<and> last t' = SDL_RenderPresent))"
  by (auto simp add: sdl_render_once_def EXIT_FAILURE_def EXIT_SUCCESS_def
      split: option.splits if_splits)

theorem render_presents_once_unless_it_exits_witness:
  "sdl_render_once sdl_works None =
     Some ([SDL_SetRenderDrawColor 0 0 255 255, SDL_RenderClear, SDL_RenderPresent], True)
   \<and> sdl_render_once sdl_works (Some blue) =
       Some ([SDL_CreateTexture 1 1, SDL_LockTexture, Memcpy [255, 255, 0, 0],
              SDL_UnlockTexture, SDL_RenderCopy 0 0 1 1, SDL_DestroyTexture,
              SDL_RenderPresent], True)
   \<and> count_list [SDL_CreateTexture 1 1, SDL_LockTexture, Memcpy [255, 255, 0, 0],
              SDL_UnlockTexture, SDL_RenderCopy 0 0 1 1, SDL_DestroyTexture,
              SDL_RenderPresent] SDL_RenderPresent = 1
   \<and> \<not> lock_texture_ok sdl_without_lock
   \<and> sdl_render_once sdl_without_lock (Some blue) =
       Some ([SDL_CreateTexture 1 1, SDL_LockTexture,
              Stderr ''Failed to lock SDL texture: .\<newline>'', Exit EXIT_FAILURE], False)
   \<and> count_list [SDL_CreateTexture 1 1, SDL_LockTexture,
              Stderr ''Failed to lock SDL texture: .\<newline>'', Exit EXIT_FAILURE]
         SDL_RenderPresent = 0"
proof -
  have r: "sdl_render_once sdl_works (Some blue) =
       Some ([SDL_CreateTexture 1 1, SDL_LockTexture, Memcpy [255, 255, 0, 0],
              SDL_UnlockTexture, SDL_RenderCopy 0 0 1 1, SDL_DestroyTexture,
              SDL_RenderPresent], True)"
    by code_simp
  have l: "\<not> lock_texture_ok sdl_without_lock" by code_simp
  have x: "sdl_render_once sdl_without_lock (Some blue) =
       Some ([SDL_CreateTexture 1 1, SDL_LockTexture,
              Stderr ''Failed to lock SDL texture: .\<newline>'', Exit EXIT_FAILURE], False)"
    by code_simp
  from render_presents_once_unless_it_exits [of sdl_works "Some blue" _ blue] r
  have 1: "sdl_render_once sdl_works None =
     Some ([SDL_SetRenderDrawColor 0 0 255 255, SDL_RenderClear, SDL_RenderPresent], True)"
    and 2: "count_list [SDL_CreateTexture 1 1, SDL_LockTexture, Memcpy [255, 255, 0, 0],
              SDL_UnlockTexture, SDL_RenderCopy 0 0 1 1, SDL_DestroyTexture,
              SDL_RenderPresent] SDL_RenderPresent = 1"
    by blast+
  from render_presents_once_unless_it_exits [of sdl_without_lock "Some blue" _ blue] l x
  have 3: "count_list [SDL_CreateTexture 1 1, SDL_LockTexture,
              Stderr ''Failed to lock SDL texture: .\<newline>'', Exit EXIT_FAILURE]
         SDL_RenderPresent = 0"
    by auto
  from 1 2 3 r l x show ?thesis by blast
qed

text \<open>
  C7 as stated fails: where the texture cannot be created, a call with an active image
  ends the process and presents nothing.
\<close>

theorem render_without_texture_counterexample:
  "sdl_render_once sdl_without_textures (Some blue) =
     Some ([SDL_CreateTexture 1 1, Stderr ''Failed to create SDL texture: .\<newline>'',
            Exit EXIT_FAILURE], False)
   \<and> count_list [SDL_CreateTexture 1 1, Stderr ''Failed to create SDL texture: .\<newline>'',
            Exit EXIT_FAILURE] SDL_RenderPresent = 0"
  by code_simp

text \<open>
  C8.  A path is given on the command line and its decode fails: \<^verbatim>\<open>main\<close> writes the
  decoder's line on \<^verbatim>\<open>stderr\<close> and goes on with no image.  Where SDL initialises and grants
  the window and the renderer, the window is created with the title \<^verbatim>\<open>imgv\<close> and the size
  500 by 500, the fallback colour is presented, and the process is alive with no active
  image.
\<close>

theorem startup_decode_failure_not_fatal:
  assumes "1 < length argv" and "ppm_read_file e (argv ! 1) = Some (Inl err)"
    and "init_ok s" and "create_window_ok s ''imgv'' 500 500" and "create_renderer_ok s"
  shows "main_startup e s argv =
           Some (Alive \<lparr>ppm_file = None, running = True,
                        trace = [Stderr (message err), SDL_Init,
                                 SDL_CreateWindow ''imgv'' 500 500,
                                 SDL_EventState, SDL_CreateRenderer,
                                 SDL_SetRenderDrawColor 0 0 255 255, SDL_RenderClear,
                                 SDL_RenderPresent]\<rparr>)"
  using assms by (simp add: main_startup_def startup_load_def sdl_render_once_def)

theorem startup_decode_failure_not_fatal_witness:
  "main_startup demo_disk sdl_works [''imgv'', ''cut.ppm''] =
     Some (Alive \<lparr>ppm_file = None, running = True,
                  trace = [Stderr (message Bad_Pixel_Data), SDL_Init,
                           SDL_CreateWindow ''imgv'' 500 500,
                           SDL_EventState, SDL_CreateRenderer,
                           SDL_SetRenderDrawColor 0 0 255 255, SDL_RenderClear,
                           SDL_RenderPresent]\<rparr>)"
proof -
  have "ppm_read_file demo_disk ([''imgv'', ''cut.ppm''] ! 1) = Some (Inl Bad_Pixel_Data)"
    using read_cut by simp
  then show ?thesis
    by (rule startup_decode_failure_not_fatal [rotated]) (simp_all add: sdl_works_def)
qed

end
